theory Spec2Isabelle
  imports Main "HOL-Library.Word" "HOL-Library.Char_ord" "HOL-Library.List_Lexorder"
begin

unbundle bit_operations_syntax

section \<open>The transactional core of txn.h\<close>

text \<open>
  A shallow embedding of \<^verbatim>\<open>src/txn.h\<close>: the versioned record \<^verbatim>\<open>logical_node\<close>
  with its packed header word, and the per-transaction key ranges and local sets.
  The embedding is sequential: one thread runs each operation to its end, so the
  spinning waits of \<^verbatim>\<open>lock\<close>, \<^verbatim>\<open>stable_version\<close> and the \<^verbatim>\<open>stable_\<close> readers are
  not part of it.
\<close>

subsection \<open>Types and constants\<close>

text \<open>\<^verbatim>\<open>tid_t\<close> is \<^verbatim>\<open>uint64_t\<close>; \<^verbatim>\<open>record_t\<close> is a pointer \<^verbatim>\<open>uint8_t*\<close>, kept as its
  64-bit address, with \<^verbatim>\<open>NULL\<close> the address 0.\<close>

type_synonym tid_t = "64 word"
type_synonym record_t = "64 word"

definition MIN_TID :: tid_t where
  "MIN_TID = 0"

definition NULL :: record_t where
  "NULL = 0"

definition HDR_LOCKED_MASK :: "64 word" where
  "HDR_LOCKED_MASK = 0x1"

definition HDR_SIZE_SHIFT :: nat where
  "HDR_SIZE_SHIFT = 1"

definition HDR_SIZE_MASK :: "64 word" where
  "HDR_SIZE_MASK = push_bit HDR_SIZE_SHIFT 0xf"

definition HDR_VERSION_SHIFT :: nat where
  "HDR_VERSION_SHIFT = 5"

definition HDR_VERSION_MASK :: "64 word" where
  "HDR_VERSION_MASK = push_bit HDR_VERSION_SHIFT (- 1)"

definition NVersions :: nat where
  "NVersions = 15"

text \<open>
  Modelled from the spec: the \<^verbatim>\<open>INVARIANT\<close> macro of \<^verbatim>\<open>macros.h\<close>, which is not
  among the sources. The spec (section 7) has a violated invariant terminate the
  operation abnormally in a build that checks invariants. That build is the one
  embedded here: every \<^verbatim>\<open>INVARIANT(e)\<close> of the source is a branch that ends the
  operation with \<open>InvariantViolation\<close> when \<open>e\<close> is false.
\<close>

datatype error = InvariantViolation

subsection \<open>logical_node\<close>

text \<open>The two arrays \<^verbatim>\<open>versions[NVersions]\<close> and \<^verbatim>\<open>values[NVersions]\<close> are lists;
  \<open>wf_node\<close> says that they have the length the C++ type gives them.\<close>

record logical_node =
  hdr :: "64 word"
  versions :: "tid_t list"
  values_arr :: "record_t list"

definition wf_node :: "logical_node \<Rightarrow> bool" where
  "wf_node ln = (length (versions ln) = NVersions \<and> length (values_arr ln) = NVersions)"

definition IsLocked :: "64 word \<Rightarrow> bool" where
  "IsLocked v = (v AND HDR_LOCKED_MASK \<noteq> 0)"

definition is_locked :: "logical_node \<Rightarrow> bool" where
  "is_locked ln = IsLocked (hdr ln)"

text \<open>\<^verbatim>\<open>size_t\<close> values here are at most 15; they are natural numbers.\<close>

definition Size :: "64 word \<Rightarrow> nat" where
  "Size v = unat (drop_bit HDR_SIZE_SHIFT (v AND HDR_SIZE_MASK))"

definition size_node :: "logical_node \<Rightarrow> nat" where
  "size_node ln = Size (hdr ln)"

definition Version :: "64 word \<Rightarrow> 64 word" where
  "Version v = drop_bit HDR_VERSION_SHIFT (v AND HDR_VERSION_MASK)"

definition set_size :: "logical_node \<Rightarrow> nat \<Rightarrow> error + logical_node" where
  "set_size ln n =
     (if \<not> n \<le> NVersions then Inl InvariantViolation
      else
        let h = hdr ln AND NOT HDR_SIZE_MASK;
            h = h OR push_bit HDR_SIZE_SHIFT (of_nat n)
        in Inr (ln\<lparr>hdr := h\<rparr>))"

text \<open>The constructor runs on raw memory \<open>mem\<close> (\<^verbatim>\<open>new (p) logical_node\<close>):
  it sets the header and slot 0 and leaves the other slots as they were.\<close>

definition logical_node_ctor :: "logical_node \<Rightarrow> error + logical_node" where
  "logical_node_ctor mem =
     (case set_size (mem\<lparr>hdr := 0\<rparr>) 1 of
        Inl e \<Rightarrow> Inl e
      | Inr ln \<Rightarrow>
          Inr (ln\<lparr>versions := (versions ln)[0 := MIN_TID],
                  values_arr := (values_arr ln)[0 := NULL]\<rparr>))"

definition unlock :: "logical_node \<Rightarrow> error + logical_node" where
  "unlock ln =
     (let v = hdr ln in
      if \<not> IsLocked v then Inl InvariantViolation
      else
        let n = Version v;
            v = v AND NOT HDR_VERSION_MASK;
            v = v OR (push_bit HDR_VERSION_SHIFT (n + 1) AND HDR_VERSION_MASK);
            v = v AND NOT HDR_LOCKED_MASK
        in if \<not> \<not> IsLocked v then Inl InvariantViolation
           else Inr (ln\<lparr>hdr := v\<rparr>))"

text \<open>The scan of \<^verbatim>\<open>record_at\<close>, from index \<open>i\<close> (an \<^verbatim>\<open>ssize_t\<close>) down to 0. The
  reference parameters \<^verbatim>\<open>start_t\<close> and \<^verbatim>\<open>r\<close> are passed in and returned, so that
  a scan that finds nothing leaves them as they were.\<close>

function record_at_loop ::
  "logical_node \<Rightarrow> tid_t \<Rightarrow> int \<Rightarrow> tid_t \<Rightarrow> record_t \<Rightarrow> bool \<times> tid_t \<times> record_t" where
  "record_at_loop ln t i start_t r =
     (if i \<ge> 0 then
        (if versions ln ! nat i \<le> t
         then (True, versions ln ! nat i, values_arr ln ! nat i)
         else record_at_loop ln t (i - 1) start_t r)
      else (False, start_t, r))"
  by pat_completeness auto
termination
  by (relation "measure (\<lambda>(ln, t, i, start_t, r). nat (i + 1))") auto

declare record_at_loop.simps [simp del]

definition record_at ::
  "logical_node \<Rightarrow> tid_t \<Rightarrow> tid_t \<Rightarrow> record_t \<Rightarrow> error + (bool \<times> tid_t \<times> record_t)" where
  "record_at ln t start_t r =
     (let n = size_node ln in
      if \<not> (n > 0 \<and> n \<le> NVersions) then Inl InvariantViolation
      else Inr (record_at_loop ln t (int n - 1) start_t r))"

definition is_latest_version :: "logical_node \<Rightarrow> tid_t \<Rightarrow> error + bool" where
  "is_latest_version ln t =
     (let n = size_node ln in
      if \<not> (n > 0 \<and> n \<le> NVersions) then Inl InvariantViolation
      else Inr (versions ln ! (n - 1) \<le> t))"

function is_snapshot_consistent_loop ::
  "logical_node \<Rightarrow> tid_t \<Rightarrow> tid_t \<Rightarrow> int \<Rightarrow> error + bool" where
  "is_snapshot_consistent_loop ln snapshot_tid commit_tid i =
     (if i \<ge> 0 then
        (if versions ln ! nat i \<le> snapshot_tid then
           (if \<not> versions ln ! nat (i + 1) \<noteq> commit_tid then Inl InvariantViolation
            else Inr (versions ln ! nat (i + 1) > commit_tid))
         else is_snapshot_consistent_loop ln snapshot_tid commit_tid (i - 1))
      else Inr False)"
  by pat_completeness auto
termination
  by (relation "measure (\<lambda>(ln, snapshot_tid, commit_tid, i). nat (i + 1))") auto

declare is_snapshot_consistent_loop.simps [simp del]

definition is_snapshot_consistent :: "logical_node \<Rightarrow> tid_t \<Rightarrow> tid_t \<Rightarrow> error + bool" where
  "is_snapshot_consistent ln snapshot_tid commit_tid =
     (let n = size_node ln in
      if \<not> (n > 0 \<and> n \<le> NVersions) then Inl InvariantViolation
      else if versions ln ! (n - 1) \<le> snapshot_tid then Inr True
      else is_snapshot_consistent_loop ln snapshot_tid commit_tid (int n - 2))"

text \<open>The loop of \<^verbatim>\<open>write_record_at\<close> that drops the oldest version, from index \<open>i\<close>.\<close>

function write_record_at_shift :: "logical_node \<Rightarrow> nat \<Rightarrow> logical_node" where
  "write_record_at_shift ln i =
     (if i < NVersions - 1 then
        write_record_at_shift
          (ln\<lparr>versions := (versions ln)[i := versions ln ! (i + 1)],
              values_arr := (values_arr ln)[i := values_arr ln ! (i + 1)]\<rparr>)
          (i + 1)
      else ln)"
  by pat_completeness auto
termination
  by (relation "measure (\<lambda>(ln, i). NVersions - 1 - i)") auto

declare write_record_at_shift.simps [simp del]

definition write_record_at :: "logical_node \<Rightarrow> tid_t \<Rightarrow> record_t \<Rightarrow> error + logical_node" where
  "write_record_at ln t r =
     (if \<not> is_locked ln then Inl InvariantViolation
      else
        let n = size_node ln in
        if \<not> (n > 0 \<and> n \<le> NVersions) then Inl InvariantViolation
        else if \<not> versions ln ! (n - 1) < t then Inl InvariantViolation
        else if n = NVersions then
          (let ln = write_record_at_shift ln 0
           in Inr (ln\<lparr>versions := (versions ln)[NVersions - 1 := t],
                      values_arr := (values_arr ln)[NVersions - 1 := r]\<rparr>))
        else
          set_size (ln\<lparr>versions := (versions ln)[n := t],
                       values_arr := (values_arr ln)[n := r]\<rparr>) (n + 1))"

text \<open>The retained entries of a node, oldest first, and the ordering invariant of the
  data model: the timestamps of the retained entries are strictly increasing.\<close>

definition retained :: "logical_node \<Rightarrow> (tid_t \<times> record_t) list" where
  "retained ln = take (size_node ln) (zip (versions ln) (values_arr ln))"

definition strictly_increasing :: "logical_node \<Rightarrow> bool" where
  "strictly_increasing ln = sorted_wrt (<) (take (size_node ln) (versions ln))"

subsection \<open>key_range_t\<close>

text \<open>
  Modelled from the spec: \<^verbatim>\<open>varkey\<close> of \<^verbatim>\<open>varkey.h\<close>, which is not among the sources.
  The spec takes keys as an opaque totally ordered byte-sequence type; here a key is a
  byte string with the order of \<^verbatim>\<open>std::string\<close> (bytewise lexicographic, a proper
  prefix first), so that the conversions between \<^verbatim>\<open>varkey\<close> and \<^verbatim>\<open>std::string\<close> are
  the identity.
\<close>

type_synonym key_type = string

record key_range_t =
  a :: string
  has_b :: bool
  b :: string

definition is_empty_range :: "key_range_t \<Rightarrow> bool" where
  "is_empty_range rng = (has_b rng \<and> a rng \<ge> b rng)"

definition contains :: "key_range_t \<Rightarrow> key_range_t \<Rightarrow> bool" where
  "contains rng that =
     (if a rng > a that then False
      else if \<not> has_b rng then True
      else if \<not> has_b that then False
      else b rng \<ge> b that)"

definition key_in_range :: "key_range_t \<Rightarrow> key_type \<Rightarrow> bool" where
  "key_in_range rng k = (a rng \<le> k \<and> (\<not> has_b rng \<or> k < b rng))"

definition key_range_search_less_cmp :: "key_type \<Rightarrow> key_range_t \<Rightarrow> bool" where
  "key_range_search_less_cmp k rng = (\<not> has_b rng \<or> k < b rng)"

subsection \<open>transaction\<close>

text \<open>The pointer \<^verbatim>\<open>logical_node *ln\<close> of a read record is kept as its address. The maps
  \<^verbatim>\<open>read_set\<close> and \<^verbatim>\<open>write_set\<close> are \<^verbatim>\<open>std::map\<close>s keyed by \<^verbatim>\<open>std::string\<close>; the
  field \<^verbatim>\<open>btree\<close> points into \<^verbatim>\<open>txn_btree\<close>, which is not among the sources, and is
  left out.\<close>

record read_record_t =
  t_rr :: tid_t
  r_rr :: record_t
  ln_rr :: "64 word"

record transaction =
  snapshot_tid :: tid_t
  resolved :: bool
  read_set :: "string \<rightharpoonup> read_record_t"
  write_set :: "string \<rightharpoonup> record_t"
  absent_range_set :: "key_range_t list"

text \<open>
  Modelled from the spec: \<^verbatim>\<open>local_search_str\<close>, declared in \<^verbatim>\<open>txn.h\<close> and defined in
  \<^verbatim>\<open>txn.cc\<close>, which is not among the sources. Spec, section 4.2: it checks
  \<^verbatim>\<open>write_set\<close> first; if the key is absent there it checks \<^verbatim>\<open>read_set\<close>; it returns
  not-found if neither holds a record for the key. The reference parameter \<^verbatim>\<open>v\<close> is
  passed in and returned.
\<close>

definition local_search_str :: "transaction \<Rightarrow> string \<Rightarrow> record_t \<Rightarrow> bool \<times> record_t" where
  "local_search_str txn k v =
     (case write_set txn k of
        Some w \<Rightarrow> (True, w)
      | None \<Rightarrow>
          (case read_set txn k of
             Some rr \<Rightarrow> (True, r_rr rr)
           | None \<Rightarrow> (False, v)))"

text \<open>\<^verbatim>\<open>local_search\<close> is in \<^verbatim>\<open>txn.h\<close>: it copies the key into a \<^verbatim>\<open>std::string\<close> and
  calls \<^verbatim>\<open>local_search_str\<close>.\<close>

definition local_search :: "transaction \<Rightarrow> key_type \<Rightarrow> record_t \<Rightarrow> bool \<times> record_t" where
  "local_search txn k v = (let sk = k in local_search_str txn sk v)"

text \<open>
  Modelled from the spec: \<^verbatim>\<open>key_in_absent_set\<close>, declared in \<^verbatim>\<open>txn.h\<close> and defined in
  \<^verbatim>\<open>txn.cc\<close>, which is not among the sources. Spec, section 4.2: a binary search
  with the ordering \<^verbatim>\<open>key_range_search_less_cmp\<close>. By the note above that comparator in
  \<^verbatim>\<open>txn.h\<close>, the search (\<^verbatim>\<open>upper_bound\<close>) yields the first range whose upper bound is
  greater than the key, if one exists, with no promise on its lower bound; the key is
  in the set when that range holds it. On a range set that the comparator partitions the
  binary search finds what a scan from the front finds, which is what \<open>upper_bound\<close>
  computes here.
\<close>

definition upper_bound :: "key_range_t list \<Rightarrow> key_type \<Rightarrow> key_range_t option" where
  "upper_bound rs k = find (key_range_search_less_cmp k) rs"

definition key_in_absent_set :: "transaction \<Rightarrow> key_type \<Rightarrow> bool" where
  "key_in_absent_set txn k =
     (case upper_bound (absent_range_set txn) k of
        None \<Rightarrow> False
      | Some rng \<Rightarrow> key_in_range rng k)"

text \<open>
  Modelled from the spec: \<^verbatim>\<open>add_absent_range\<close>, declared in \<^verbatim>\<open>txn.h\<close> and defined in
  \<^verbatim>\<open>txn.cc\<close>, which is not among the sources. Spec, section 4.2: it inserts an
  interval into \<^verbatim>\<open>absent_range_set\<close>, merging with or being contained by existing
  ranges, maintaining the non-overlap invariant. Here a range with no key
  (\<open>is_empty_range\<close>) is not inserted; the new range goes before the first range that
  starts after its end, stays out when a range already \<open>contains\<close> it, and is merged
  with every range it overlaps or touches.
\<close>

definition range_before :: "key_range_t \<Rightarrow> key_range_t \<Rightarrow> bool" where
  "range_before r1 r2 = (has_b r1 \<and> b r1 < a r2)"

definition range_hull :: "key_range_t \<Rightarrow> key_range_t \<Rightarrow> key_range_t" where
  "range_hull r1 r2 =
     \<lparr>a = min (a r1) (a r2), has_b = (has_b r1 \<and> has_b r2), b = max (b r1) (b r2)\<rparr>"

fun insert_range :: "key_range_t \<Rightarrow> key_range_t list \<Rightarrow> key_range_t list" where
  "insert_range rng [] = [rng]"
| "insert_range rng (x # xs) =
     (if range_before rng x then rng # x # xs
      else if range_before x rng then x # insert_range rng xs
      else if contains x rng then x # xs
      else insert_range (range_hull rng x) xs)"

definition add_absent_range :: "transaction \<Rightarrow> key_range_t \<Rightarrow> transaction" where
  "add_absent_range txn rng =
     (if is_empty_range rng then txn
      else txn\<lparr>absent_range_set := insert_range rng (absent_range_set txn)\<rparr>)"

text \<open>
  Modelled from the spec: \<^verbatim>\<open>AssertValidRangeSet\<close>, whose checking variant is defined in
  \<^verbatim>\<open>txn.cc\<close>, which is not among the sources. Spec, section 4.2: it checks that the
  ranges are sorted and disjoint. Here: no range is empty, and every range ends strictly
  before each later range starts.
\<close>

definition valid_range_set :: "key_range_t list \<Rightarrow> bool" where
  "valid_range_set rs =
     (list_all (\<lambda>rng. \<not> is_empty_range rng) rs \<and> sorted_wrt range_before rs)"

section \<open>The header word\<close>

lemma bit_HDR_LOCKED_MASK: "bit HDR_LOCKED_MASK n \<longleftrightarrow> n = 0"
  unfolding HDR_LOCKED_MASK_def by (simp add: bit_1_iff)

lemma word_0xf_mask: "(0xf :: 64 word) = mask 4"
  by (simp add: mask_eq_exp_minus_1)

lemma bit_HDR_SIZE_MASK: "bit HDR_SIZE_MASK n \<longleftrightarrow> 1 \<le> n \<and> n < 5"
  unfolding HDR_SIZE_MASK_def HDR_SIZE_SHIFT_def word_0xf_mask
  by (simp only: bit_push_bit_iff bit_mask_iff) (auto simp: possible_bit_word)

lemma bit_HDR_VERSION_MASK: "bit HDR_VERSION_MASK n \<longleftrightarrow> 5 \<le> n \<and> n < 64"
  unfolding HDR_VERSION_MASK_def HDR_VERSION_SHIFT_def
  by (simp only: bit_push_bit_iff bit_minus_1_iff) (auto simp: possible_bit_word)

lemmas hdr_bits = bit_HDR_LOCKED_MASK bit_HDR_SIZE_MASK bit_HDR_VERSION_MASK

text \<open>The three fields of the header, read bit by bit: the lock is bit 0, the count
  is bits 1 to 4, the stamp is bits 5 to 63.\<close>

lemma IsLocked_bit: "IsLocked v = bit v 0"
proof -
  have "v AND HDR_LOCKED_MASK = (if bit v 0 then 1 else 0)"
    by (rule bit_word_eqI) (auto simp: bit_simps hdr_bits bit_1_iff intro: gr0I)
  then show ?thesis by (simp add: IsLocked_def)
qed

lemma Size_take_bit: "Size v = unat (take_bit 4 (drop_bit 1 v))"
  unfolding Size_def HDR_SIZE_SHIFT_def
  by (rule arg_cong [where f = unat], rule bit_word_eqI) (auto simp: bit_simps hdr_bits)

lemma Size_le: "Size v \<le> 15"
proof -
  have "unat (take_bit 4 (drop_bit 1 v)) < 2 ^ 4"
    by (subst unsigned_take_bit_eq) (simp add: take_bit_eq_mod)
  then show ?thesis by (simp add: Size_take_bit)
qed

lemma Version_drop_bit: "Version v = drop_bit 5 v"
  unfolding Version_def HDR_VERSION_SHIFT_def
  by (rule bit_word_eqI) (auto simp: bit_simps hdr_bits dest: bit_imp_le_length)

subsection \<open>unlock\<close>

lemma bit_unlock_hdr:
  "bit (((v AND NOT HDR_VERSION_MASK) OR
         (push_bit HDR_VERSION_SHIFT m AND HDR_VERSION_MASK)) AND NOT HDR_LOCKED_MASK) n
   \<longleftrightarrow> (if n < 5 then 0 < n \<and> bit v n else n < 64 \<and> bit m (n - 5))"
  unfolding HDR_VERSION_SHIFT_def
  by (auto simp: bit_simps hdr_bits dest: bit_imp_le_length)

lemma unlock_locked:
  assumes "IsLocked (hdr ln)"
  shows "\<exists>h. unlock ln = Inr (ln\<lparr>hdr := h\<rparr>) \<and>
     (\<forall>n. bit h n \<longleftrightarrow>
        (if n < 5 then 0 < n \<and> bit (hdr ln) n
         else n < 64 \<and> bit (Version (hdr ln) + 1) (n - 5)))"
proof -
  let ?h = "((hdr ln AND NOT HDR_VERSION_MASK) OR
      (push_bit HDR_VERSION_SHIFT (Version (hdr ln) + 1) AND HDR_VERSION_MASK))
      AND NOT HDR_LOCKED_MASK"
  have "\<not> IsLocked ?h"
    by (simp only: IsLocked_bit bit_unlock_hdr) simp
  with assms have "unlock ln = Inr (ln\<lparr>hdr := ?h\<rparr>)"
    by (simp add: unlock_def Let_def)
  then show ?thesis
    using bit_unlock_hdr [of "hdr ln" "Version (hdr ln) + 1"] by blast
qed

lemma unlocked_hdr_fields:
  assumes "\<forall>n. bit h n \<longleftrightarrow> (if n < 5 then 0 < n \<and> bit v n else n < 64 \<and> bit m (n - 5))"
  shows "\<not> IsLocked h" and "Size h = Size v" and "Version h = take_bit 59 m"
proof -
  show "\<not> IsLocked h"
    using assms by (simp add: IsLocked_bit)
  show "Size h = Size v"
    unfolding Size_take_bit
    by (rule arg_cong [where f = unat], rule bit_word_eqI) (auto simp: bit_simps assms)
  show "Version h = take_bit 59 m"
    unfolding Version_drop_bit
    by (rule bit_word_eqI) (auto simp: bit_simps assms)
qed

lemma unat_take_bit_59_Suc:
  "unat (take_bit 59 (w + 1 :: 64 word)) = (unat w + 1) mod 2 ^ 59"
proof -
  have d: "(2::nat) ^ 59 dvd 2 ^ 64" by (rule le_imp_power_dvd) simp
  have "unat (take_bit 59 (w + 1)) = unat (w + 1) mod 2 ^ 59"
    by (subst unsigned_take_bit_eq) (rule take_bit_eq_mod)
  also have "\<dots> = ((unat w + 1) mod 2 ^ 64) mod 2 ^ 59"
    by (simp add: unat_word_ariths)
  also have "\<dots> = (unat w + 1) mod 2 ^ 59"
    using d by (rule mod_mod_cancel)
  finally show ?thesis .
qed

text \<open>
  Claim C9. On a header whose locked bit is set, \<open>unlock\<close> returns a node whose locked
  bit is clear, whose stamp (\<open>Version\<close>) is the old stamp plus one modulo \<open>2 ^ 59\<close>,
  and whose count (\<open>Size\<close>) and two arrays are unchanged. On a header whose locked bit
  is clear, \<open>unlock\<close> ends with an invariant violation.
\<close>

theorem unlock_spec:
  "(IsLocked (hdr ln) \<longrightarrow>
      (\<exists>ln'. unlock ln = Inr ln' \<and> \<not> IsLocked (hdr ln') \<and>
         unat (Version (hdr ln')) = (unat (Version (hdr ln)) + 1) mod 2 ^ 59 \<and>
         Size (hdr ln') = Size (hdr ln) \<and>
         versions ln' = versions ln \<and> values_arr ln' = values_arr ln)) \<and>
   (\<not> IsLocked (hdr ln) \<longrightarrow> unlock ln = Inl InvariantViolation)"
proof (intro conjI impI)
  assume "IsLocked (hdr ln)"
  then obtain h where u: "unlock ln = Inr (ln\<lparr>hdr := h\<rparr>)"
    and h: "\<forall>n. bit h n \<longleftrightarrow>
        (if n < 5 then 0 < n \<and> bit (hdr ln) n
         else n < 64 \<and> bit (Version (hdr ln) + 1) (n - 5))"
    using unlock_locked by blast
  have "unat (Version h) = (unat (Version (hdr ln)) + 1) mod 2 ^ 59"
    by (simp only: unlocked_hdr_fields(3) [OF h] unat_take_bit_59_Suc)
  with u unlocked_hdr_fields(1,2) [OF h]
  show "\<exists>ln'. unlock ln = Inr ln' \<and> \<not> IsLocked (hdr ln') \<and>
         unat (Version (hdr ln')) = (unat (Version (hdr ln)) + 1) mod 2 ^ 59 \<and>
         Size (hdr ln') = Size (hdr ln) \<and>
         versions ln' = versions ln \<and> values_arr ln' = values_arr ln"
    by simp
next
  assume "\<not> IsLocked (hdr ln)"
  then show "unlock ln = Inl InvariantViolation"
    by (simp add: unlock_def)
qed

text \<open>The theorem at the header \<open>0xFFFFFFFFFFFFFFFF\<close> (locked, count 15, the largest
  stamp, which wraps to 0) and at the header \<open>0x2\<close> (not locked).\<close>

theorem unlock_spec_witness:
  "IsLocked (hdr \<lparr>hdr = 0xFFFFFFFFFFFFFFFF, versions = [], values_arr = []\<rparr>) \<and>
   (\<exists>ln'. unlock \<lparr>hdr = 0xFFFFFFFFFFFFFFFF, versions = [], values_arr = []\<rparr> = Inr ln' \<and>
      \<not> IsLocked (hdr ln') \<and> unat (Version (hdr ln')) = 0 \<and> Size (hdr ln') = 15) \<and>
   \<not> IsLocked (hdr \<lparr>hdr = 0x2, versions = [], values_arr = []\<rparr>) \<and>
   unlock \<lparr>hdr = 0x2, versions = [], values_arr = []\<rparr> = Inl InvariantViolation"
proof -
  let ?A = "\<lparr>hdr = 0xFFFFFFFFFFFFFFFF, versions = [], values_arr = []\<rparr>"
  let ?B = "\<lparr>hdr = 0x2, versions = [], values_arr = []\<rparr>"
  have a: "IsLocked (hdr ?A)" by (simp add: IsLocked_bit)
  have b: "\<not> IsLocked (hdr ?B)" by (simp add: IsLocked_bit)
  have v: "(unat (Version (hdr ?A)) + 1) mod 2 ^ 59 = 0"
    by (simp add: Version_drop_bit)
  have s: "Size (hdr ?A) = 15"
    by (simp add: Size_take_bit)
  from a b v s unlock_spec [of ?A] unlock_spec [of ?B] show ?thesis
    by (simp only:) blast
qed

subsection \<open>set_size\<close>

lemma bit_nat_le_15: "(n::nat) \<le> 15 \<Longrightarrow> bit n j \<Longrightarrow> j < 4"
proof -
  assume "n \<le> 15" and b: "bit n j"
  then have "take_bit 4 n = n"
    by (simp add: take_bit_nat_eq_self)
  with b have "bit (take_bit 4 n) j" by simp
  then show "j < 4" by (simp add: bit_take_bit_iff)
qed

lemma bit_of_nat_le_15:
  "n \<le> 15 \<Longrightarrow> bit (of_nat n :: 64 word) j \<longleftrightarrow> j < 4 \<and> bit n j"
  by (auto simp: bit_of_nat_iff possible_bit_word dest: bit_nat_le_15)

lemma unat_of_nat_le_15: "n \<le> 15 \<Longrightarrow> unat (of_nat n :: 64 word) = n"
  by (simp add: unat_of_nat)

lemma set_size_ok:
  assumes "n \<le> 15"
  shows "\<exists>h. set_size ln n = Inr (ln\<lparr>hdr := h\<rparr>) \<and> Size h = n \<and>
           IsLocked h = IsLocked (hdr ln) \<and> Version h = Version (hdr ln)"
proof -
  define h where "h = (hdr ln AND NOT HDR_SIZE_MASK) OR push_bit HDR_SIZE_SHIFT (of_nat n)"
  have b: "bit h k \<longleftrightarrow> (if 1 \<le> k \<and> k < 5 then bit n (k - 1) else bit (hdr ln) k)" for k
    unfolding h_def HDR_SIZE_SHIFT_def
    by (simp only: bit_or_iff bit_and_iff bit_not_iff bit_push_bit_iff hdr_bits
          bit_of_nat_le_15 [OF assms])
       (auto simp: possible_bit_word dest: bit_imp_le_length)
  have "take_bit 4 (drop_bit 1 h) = of_nat n"
    by (rule bit_word_eqI)
       (auto simp: bit_simps b bit_of_nat_le_15 [OF assms] dest: bit_nat_le_15 [OF assms])
  then have "Size h = n"
    using assms by (simp only: Size_take_bit unat_of_nat_le_15)
  moreover have "IsLocked h = IsLocked (hdr ln)"
    by (simp add: IsLocked_bit b)
  moreover have "Version h = Version (hdr ln)"
    unfolding Version_drop_bit by (rule bit_word_eqI) (simp add: bit_simps b)
  moreover have "set_size ln n = Inr (ln\<lparr>hdr := h\<rparr>)"
    using assms by (simp add: set_size_def NVersions_def Let_def h_def)
  ultimately show ?thesis by blast
qed

subsection \<open>record_at\<close>

lemma record_at_loop_none:
  "(\<forall>j. 0 \<le> j \<and> j \<le> i \<longrightarrow> t < versions ln ! nat j) \<Longrightarrow>
   record_at_loop ln t i start_t r = (False, start_t, r)"
proof (induction ln t i start_t r rule: record_at_loop.induct)
  case (1 ln t i start_t r)
  show ?case
  proof (cases "i \<ge> 0")
    case True
    with "1.prems" have "\<not> versions ln ! nat i \<le> t" by (simp add: not_le)
    moreover from "1.prems" have "\<forall>j. 0 \<le> j \<and> j \<le> i - 1 \<longrightarrow> t < versions ln ! nat j" by simp
    ultimately show ?thesis
      using True "1.IH" by (subst record_at_loop.simps) simp
  next
    case False
    then show ?thesis by (subst record_at_loop.simps) simp
  qed
qed

lemma record_at_loop_found:
  "0 \<le> k \<Longrightarrow> k \<le> i \<Longrightarrow> versions ln ! nat k \<le> t \<Longrightarrow>
   (\<forall>j. k < j \<and> j \<le> i \<longrightarrow> t < versions ln ! nat j) \<Longrightarrow>
   record_at_loop ln t i start_t r = (True, versions ln ! nat k, values_arr ln ! nat k)"
proof (induction ln t i start_t r rule: record_at_loop.induct)
  case (1 ln t i start_t r)
  show ?case
  proof (cases "k = i")
    case True
    with "1.prems" show ?thesis by (subst record_at_loop.simps) simp
  next
    case False
    with "1.prems" have ki: "k \<le> i - 1" and i0: "i \<ge> 0" by simp_all
    from "1.prems" False have "\<not> versions ln ! nat i \<le> t" by (simp add: not_le)
    moreover from "1.prems" have "\<forall>j. k < j \<and> j \<le> i - 1 \<longrightarrow> t < versions ln ! nat j" by simp
    ultimately show ?thesis
      using i0 ki "1.prems"(1,3) "1.IH" by (subst record_at_loop.simps) simp
  qed
qed


lemma size_node_le: "size_node ln \<le> 15"
  by (simp add: size_node_def Size_le)

lemma length_retained: "wf_node ln \<Longrightarrow> length (retained ln) = size_node ln"
  using size_node_le [of ln] by (simp add: retained_def wf_node_def NVersions_def)

lemma nth_retained:
  "wf_node ln \<Longrightarrow> i < size_node ln \<Longrightarrow>
   retained ln ! i = (versions ln ! i, values_arr ln ! i)"
  using size_node_le [of ln] by (simp add: retained_def wf_node_def NVersions_def)

lemma retained_set:
  assumes "wf_node ln"
  shows "set (retained ln) = {(versions ln ! i, values_arr ln ! i) | i. i < size_node ln}"
proof (rule set_eqI)
  fix p
  have "p \<in> set (retained ln) \<longleftrightarrow> (\<exists>i < size_node ln. retained ln ! i = p)"
    by (simp only: in_set_conv_nth length_retained [OF assms])
  also have "\<dots> \<longleftrightarrow> (\<exists>i < size_node ln. p = (versions ln ! i, values_arr ln ! i))"
    using nth_retained [OF assms] by auto
  finally show "p \<in> set (retained ln) \<longleftrightarrow>
      p \<in> {(versions ln ! i, values_arr ln ! i) | i. i < size_node ln}"
    by blast
qed

lemma strictly_increasing_nth:
  assumes "wf_node ln" and "strictly_increasing ln" and "i < j" and "j < size_node ln"
  shows "versions ln ! i < versions ln ! j"
proof -
  have "size_node ln \<le> 15" by (simp add: size_node_def Size_le)
  with assms(1) have l: "length (take (size_node ln) (versions ln)) = size_node ln"
    by (simp add: wf_node_def NVersions_def)
  from assms(2) have "sorted_wrt (<) (take (size_node ln) (versions ln))"
    by (simp add: strictly_increasing_def)
  then have "take (size_node ln) (versions ln) ! i < take (size_node ln) (versions ln) ! j"
    using assms(3,4) l by (simp add: sorted_wrt_iff_nth_less)
  with assms(3,4) show ?thesis by simp
qed

lemma record_at_unfold:
  "0 < size_node ln \<Longrightarrow>
   record_at ln t start_t r = Inr (record_at_loop ln t (int (size_node ln) - 1) start_t r)"
  by (simp add: record_at_def Let_def NVersions_def size_node_def Size_le)

lemma record_at_found:
  assumes "i < size_node ln" and "versions ln ! i \<le> t"
    and "\<forall>j. i < j \<and> j < size_node ln \<longrightarrow> t < versions ln ! j"
  shows "record_at ln t start_t r = Inr (True, versions ln ! i, values_arr ln ! i)"
proof -
  have "record_at_loop ln t (int (size_node ln) - 1) start_t r =
        (True, versions ln ! nat (int i), values_arr ln ! nat (int i))"
  proof (rule record_at_loop_found)
    show "\<forall>j. int i < j \<and> j \<le> int (size_node ln) - 1 \<longrightarrow> t < versions ln ! nat j"
    proof (intro allI impI)
      fix j :: int
      assume "int i < j \<and> j \<le> int (size_node ln) - 1"
      then have "i < nat j \<and> nat j < size_node ln" by auto
      with assms(3) show "t < versions ln ! nat j" by blast
    qed
  qed (use assms in auto)
  with assms(1) show ?thesis by (simp add: record_at_unfold)
qed

lemma record_at_none:
  assumes "0 < size_node ln" and "\<forall>j. j < size_node ln \<longrightarrow> t < versions ln ! j"
  shows "record_at ln t start_t r = Inr (False, start_t, r)"
proof -
  have "record_at_loop ln t (int (size_node ln) - 1) start_t r = (False, start_t, r)"
  proof (rule record_at_loop_none, intro allI impI)
    fix j :: int
    assume "0 \<le> j \<and> j \<le> int (size_node ln) - 1"
    then have "nat j < size_node ln" by auto
    with assms(2) show "t < versions ln ! nat j" by blast
  qed
  with assms(1) show ?thesis by (simp add: record_at_unfold)
qed

text \<open>
  Claim C3. On a node with strictly increasing timestamps over its \<open>0 < count \<le> 15\<close>
  retained entries, \<open>record_at\<close> at \<open>t\<close> returns found with the retained pair whose
  timestamp is the largest one \<open>\<le> t\<close>; it returns not-found exactly when every retained
  timestamp is greater than \<open>t\<close>, and then leaves \<open>start_t\<close> and \<open>r\<close> as they were.
\<close>

theorem record_at_spec:
  assumes "wf_node ln" and "0 < size_node ln" and "size_node ln \<le> NVersions"
    and "strictly_increasing ln"
  shows "(\<forall>p \<in> set (retained ln).
            fst p \<le> t \<and> (\<forall>q \<in> set (retained ln). fst q \<le> t \<longrightarrow> fst q \<le> fst p) \<longrightarrow>
            record_at ln t start_t r = Inr (True, fst p, snd p)) \<and>
         ((\<exists>s' r'. record_at ln t start_t r = Inr (False, s', r')) \<longleftrightarrow>
            (\<forall>q \<in> set (retained ln). t < fst q)) \<and>
         ((\<forall>q \<in> set (retained ln). t < fst q) \<longrightarrow>
            record_at ln t start_t r = Inr (False, start_t, r))"
proof -
  note rs = retained_set [OF assms(1)]
  have found: "record_at ln t start_t r = Inr (True, fst p, snd p)"
    if p: "p \<in> set (retained ln)" and le: "fst p \<le> t"
      and mx: "\<forall>q \<in> set (retained ln). fst q \<le> t \<longrightarrow> fst q \<le> fst p" for p
  proof -
    from p rs obtain i where i: "i < size_node ln"
      and pi: "p = (versions ln ! i, values_arr ln ! i)" by auto
    have "\<forall>j. i < j \<and> j < size_node ln \<longrightarrow> t < versions ln ! j"
    proof (intro allI impI, rule ccontr)
      fix j assume j: "i < j \<and> j < size_node ln" and "\<not> t < versions ln ! j"
      then have "versions ln ! j \<le> t" by simp
      moreover from j rs have "(versions ln ! j, values_arr ln ! j) \<in> set (retained ln)"
        by auto
      ultimately have "versions ln ! j \<le> versions ln ! i"
        using mx pi by fastforce
      moreover from j have "versions ln ! i < versions ln ! j"
        using strictly_increasing_nth [OF assms(1,4)] by blast
      ultimately show False by simp
    qed
    with i le pi show ?thesis
      using record_at_found [of i ln t start_t r] by simp
  qed
  have none: "record_at ln t start_t r = Inr (False, start_t, r)"
    if "\<forall>q \<in> set (retained ln). t < fst q"
  proof (rule record_at_none [OF assms(2)], intro allI impI)
    fix j assume "j < size_node ln"
    with rs have "(versions ln ! j, values_arr ln ! j) \<in> set (retained ln)" by auto
    with that show "t < versions ln ! j" by fastforce
  qed
  have conv: "\<forall>q \<in> set (retained ln). t < fst q"
    if nf: "\<exists>s' r'. record_at ln t start_t r = Inr (False, s', r')"
  proof (rule ccontr)
    assume "\<not> (\<forall>q \<in> set (retained ln). t < fst q)"
    then have ne: "{q \<in> set (retained ln). fst q \<le> t} \<noteq> {}" by (auto simp: not_less)
    have fin: "finite (fst ` {q \<in> set (retained ln). fst q \<le> t})" by simp
    from ne have ne': "fst ` {q \<in> set (retained ln). fst q \<le> t} \<noteq> {}" by simp
    obtain p where p: "p \<in> set (retained ln)" "fst p \<le> t"
      and "fst p = Max (fst ` {q \<in> set (retained ln). fst q \<le> t})"
      using Max_in [OF fin ne'] by auto
    then have "\<forall>q \<in> set (retained ln). fst q \<le> t \<longrightarrow> fst q \<le> fst p"
      using Max_ge [OF fin] by auto
    with p have "record_at ln t start_t r = Inr (True, fst p, snd p)" by (rule found)
    with nf show False by simp
  qed
  from found none conv show ?thesis by blast
qed

text \<open>The theorem at a node with the three entries (3, 70), (5, 100), (9, 200): a read
  at 7 finds (5, 100), a read at 2 finds nothing.\<close>

theorem record_at_spec_witness:
  "wf_node \<lparr>hdr = 0x6, versions = [3, 5, 9] @ replicate 12 0,
            values_arr = [70, 100, 200] @ replicate 12 0\<rparr> \<and>
   0 < size_node \<lparr>hdr = 0x6, versions = [3, 5, 9] @ replicate 12 0,
            values_arr = [70, 100, 200] @ replicate 12 0\<rparr> \<and>
   size_node \<lparr>hdr = 0x6, versions = [3, 5, 9] @ replicate 12 0,
            values_arr = [70, 100, 200] @ replicate 12 0\<rparr> \<le> NVersions \<and>
   strictly_increasing \<lparr>hdr = 0x6, versions = [3, 5, 9] @ replicate 12 0,
            values_arr = [70, 100, 200] @ replicate 12 0\<rparr> \<and>
   record_at \<lparr>hdr = 0x6, versions = [3, 5, 9] @ replicate 12 0,
            values_arr = [70, 100, 200] @ replicate 12 0\<rparr> 7 1 2 = Inr (True, 5, 100) \<and>
   record_at \<lparr>hdr = 0x6, versions = [3, 5, 9] @ replicate 12 0,
            values_arr = [70, 100, 200] @ replicate 12 0\<rparr> 2 1 2 = Inr (False, 1, 2)"
proof -
  let ?N = "\<lparr>hdr = 0x6, versions = [3, 5, 9] @ replicate 12 0,
            values_arr = [70, 100, 200] @ replicate 12 0\<rparr>"
  have wf: "wf_node ?N" by (simp add: wf_node_def NVersions_def)
  have sz: "size_node ?N = 3" by (simp add: size_node_def Size_take_bit)
  have si: "strictly_increasing ?N" by (simp add: strictly_increasing_def size_node_def Size_take_bit)
  have rt: "retained ?N = [(3, 70), (5, 100), (9, 200)]" by (simp add: retained_def size_node_def Size_take_bit)
  have h: "0 < size_node ?N" "size_node ?N \<le> NVersions" using sz by (simp_all add: NVersions_def)
  have f: "record_at ?N 7 1 2 = Inr (True, 5, 100)"
    using record_at_spec [OF wf h si, of 7 1 2] unfolding rt by simp
  have n: "record_at ?N 2 1 2 = Inr (False, 1, 2)"
    using record_at_spec [OF wf h si, of 2 1 2] unfolding rt by simp
  from wf h si f n show ?thesis by (simp only:) 
qed

subsection \<open>The constructor\<close>

lemma logical_node_ctor_eq:
  "logical_node_ctor mem =
     Inr (mem\<lparr>hdr := 2, versions := (versions mem)[0 := MIN_TID],
             values_arr := (values_arr mem)[0 := NULL]\<rparr>)"
  by (simp add: logical_node_ctor_def set_size_def NVersions_def HDR_SIZE_SHIFT_def Let_def)

text \<open>
  Claim C4. A freshly constructed node has exactly one retained entry, with timestamp
  \<open>MIN_TID = 0\<close> and the value \<open>NULL\<close>; so \<open>record_at\<close> on it returns found with
  \<open>start_t = 0\<close> and a null value at every timestamp \<open>t\<close>, whatever the memory held
  before.
\<close>

theorem fresh_node_spec:
  assumes "wf_node mem"
  shows "\<exists>ln. logical_node_ctor mem = Inr ln \<and> wf_node ln \<and> size_node ln = 1 \<and>
           retained ln = [(MIN_TID, NULL)] \<and> MIN_TID = 0 \<and> NULL = 0 \<and>
           (\<forall>t start_t r. record_at ln t start_t r = Inr (True, 0, 0))"
proof -
  let ?ln = "mem\<lparr>hdr := 2, versions := (versions mem)[0 := MIN_TID],
             values_arr := (values_arr mem)[0 := NULL]\<rparr>"
  have sz: "size_node ?ln = 1" by (simp add: size_node_def Size_take_bit)
  from assms have wf: "wf_node ?ln" by (simp add: wf_node_def)
  from assms have v0: "versions ?ln ! 0 = 0" "values_arr ?ln ! 0 = 0"
    by (simp_all add: wf_node_def NVersions_def MIN_TID_def NULL_def)
  have rt: "retained ?ln = [(MIN_TID, NULL)]"
    using assms
    by (cases "versions mem"; cases "values_arr mem")
       (simp_all add: retained_def size_node_def Size_take_bit wf_node_def NVersions_def)
  have ra: "record_at ?ln t start_t r = Inr (True, 0, 0)" for t start_t r
    using record_at_found [of 0 ?ln t start_t r] v0 by (simp only: sz) simp
  from sz wf rt ra show ?thesis
    by (simp only: logical_node_ctor_eq MIN_TID_def NULL_def) blast
qed

text \<open>The theorem on memory that held other values before.\<close>

theorem fresh_node_spec_witness:
  "wf_node \<lparr>hdr = 0xDEADBEEF, versions = replicate 15 7, values_arr = replicate 15 9\<rparr> \<and>
   (\<exists>ln. logical_node_ctor
            \<lparr>hdr = 0xDEADBEEF, versions = replicate 15 7, values_arr = replicate 15 9\<rparr> = Inr ln \<and>
         size_node ln = 1 \<and> retained ln = [(0, 0)] \<and>
         record_at ln 0 5 6 = Inr (True, 0, 0))"
proof -
  let ?M = "\<lparr>hdr = 0xDEADBEEF, versions = replicate 15 7, values_arr = replicate 15 9\<rparr>"
  have wf: "wf_node ?M" by (simp add: wf_node_def NVersions_def)
  from fresh_node_spec [OF wf] wf show ?thesis
    by (simp only: MIN_TID_def NULL_def) blast
qed

subsection \<open>is_snapshot_consistent\<close>

lemma isc_loop_none:
  "(\<forall>j. 0 \<le> j \<and> j \<le> i \<longrightarrow> s < versions ln ! nat j) \<Longrightarrow>
   is_snapshot_consistent_loop ln s c i = Inr False"
proof (induction ln s c i rule: is_snapshot_consistent_loop.induct)
  case (1 ln s c i)
  show ?case
  proof (cases "i \<ge> 0")
    case True
    with "1.prems" have "\<not> versions ln ! nat i \<le> s" by (simp add: not_le)
    moreover from "1.prems" have "\<forall>j. 0 \<le> j \<and> j \<le> i - 1 \<longrightarrow> s < versions ln ! nat j" by simp
    ultimately show ?thesis
      using True "1.IH" by (subst is_snapshot_consistent_loop.simps) simp
  next
    case False
    then show ?thesis by (subst is_snapshot_consistent_loop.simps) simp
  qed
qed

lemma isc_loop_found:
  "0 \<le> k \<Longrightarrow> k \<le> i \<Longrightarrow> versions ln ! nat k \<le> s \<Longrightarrow>
   (\<forall>j. k < j \<and> j \<le> i \<longrightarrow> s < versions ln ! nat j) \<Longrightarrow>
   is_snapshot_consistent_loop ln s c i =
     (if versions ln ! nat (k + 1) = c then Inl InvariantViolation
      else Inr (c < versions ln ! nat (k + 1)))"
proof (induction ln s c i rule: is_snapshot_consistent_loop.induct)
  case (1 ln s c i)
  show ?case
  proof (cases "k = i")
    case True
    with "1.prems" show ?thesis by (subst is_snapshot_consistent_loop.simps) simp
  next
    case False
    with "1.prems" have ki: "k \<le> i - 1" and i0: "i \<ge> 0" by simp_all
    from "1.prems" False have "\<not> versions ln ! nat i \<le> s" by (simp add: not_le)
    moreover from "1.prems" have "\<forall>j. k < j \<and> j \<le> i - 1 \<longrightarrow> s < versions ln ! nat j" by simp
    ultimately show ?thesis
      using i0 ki "1.prems"(1,3) "1.IH" by (subst is_snapshot_consistent_loop.simps) simp
  qed
qed

lemma isc_unfold:
  "0 < size_node ln \<Longrightarrow>
   is_snapshot_consistent ln s c =
     (if versions ln ! (size_node ln - 1) \<le> s then Inr True
      else is_snapshot_consistent_loop ln s c (int (size_node ln) - 2))"
  using size_node_le [of ln] by (simp add: is_snapshot_consistent_def Let_def NVersions_def)

lemma isc_slow:
  assumes wf: "wf_node ln" and si: "strictly_increasing ln"
    and i: "Suc i < size_node ln" and le: "versions ln ! i \<le> s" and gt: "s < versions ln ! Suc i"
  shows "is_snapshot_consistent ln s c =
     (if versions ln ! Suc i = c then Inl InvariantViolation else Inr (c < versions ln ! Suc i))"
proof -
  have above: "s < versions ln ! j" if "i < j" "j < size_node ln" for j
  proof (cases "j = Suc i")
    case True with gt show ?thesis by simp
  next
    case False
    with that have "Suc i < j" by simp
    from strictly_increasing_nth [OF wf si this that(2)] gt show ?thesis by simp
  qed
  from i have "i < size_node ln - 1" "size_node ln - 1 < size_node ln" by simp_all
  then have "\<not> versions ln ! (size_node ln - 1) \<le> s"
    using above [of "size_node ln - 1"] by (simp add: not_le)
  moreover have "is_snapshot_consistent_loop ln s c (int (size_node ln) - 2) =
     (if versions ln ! nat (int i + 1) = c then Inl InvariantViolation
      else Inr (c < versions ln ! nat (int i + 1)))"
  proof (rule isc_loop_found)
    show "\<forall>j. int i < j \<and> j \<le> int (size_node ln) - 2 \<longrightarrow> s < versions ln ! nat j"
    proof (intro allI impI)
      fix j :: int
      assume "int i < j \<and> j \<le> int (size_node ln) - 2"
      then have "i < nat j" "nat j < size_node ln" by auto
      then show "s < versions ln ! nat j" by (rule above)
    qed
  qed (use i le in auto)
  moreover have "nat (int i + 1) = Suc i" by simp
  ultimately show ?thesis
    using i by (simp only: isc_unfold) simp
qed

lemma isc_none:
  assumes "0 < size_node ln" and "\<forall>j. j < size_node ln \<longrightarrow> s < versions ln ! j"
  shows "is_snapshot_consistent ln s c = Inr False"
proof -
  from assms have "\<not> versions ln ! (size_node ln - 1) \<le> s" by (simp add: not_le)
  moreover have "is_snapshot_consistent_loop ln s c (int (size_node ln) - 2) = Inr False"
  proof (rule isc_loop_none, intro allI impI)
    fix j :: int
    assume "0 \<le> j \<and> j \<le> int (size_node ln) - 2"
    then have "nat j < size_node ln" by auto
    with assms(2) show "s < versions ln ! nat j" by blast
  qed
  ultimately show ?thesis using assms(1) by (simp add: isc_unfold)
qed

text \<open>
  Claim C1, as amended. On a node with \<open>0 < count\<close> whose retained timestamps are
  strictly increasing, \<open>is_snapshot_consistent\<close> returns true when the newest retained
  timestamp is \<open>\<le> snapshot_tid\<close>. Otherwise, when entry \<open>i\<close> is the one active at the
  snapshot (\<open>versions[i] \<le> snapshot_tid < versions[i + 1]\<close>), it returns whether
  \<open>versions[i + 1] > commit_tid\<close>, provided \<open>versions[i + 1]\<close> is not \<open>commit_tid\<close>
  itself: there the assertion of the slow path fails and the call ends with an
  invariant violation. When no retained timestamp is \<open>\<le> snapshot_tid\<close> it returns
  false. (The count read from the header is at most 15 by construction.)
\<close>

theorem is_snapshot_consistent_spec:
  assumes "wf_node ln" and "0 < size_node ln" and "strictly_increasing ln"
  shows "(versions ln ! (size_node ln - 1) \<le> snapshot \<longrightarrow>
            is_snapshot_consistent ln snapshot commit = Inr True) \<and>
         (\<forall>i. Suc i < size_node ln \<and> versions ln ! i \<le> snapshot \<and>
               snapshot < versions ln ! Suc i \<longrightarrow>
            is_snapshot_consistent ln snapshot commit =
              (if versions ln ! Suc i = commit then Inl InvariantViolation
               else Inr (versions ln ! Suc i > commit))) \<and>
         ((\<forall>i < size_node ln. snapshot < versions ln ! i) \<longrightarrow>
            is_snapshot_consistent ln snapshot commit = Inr False)"
proof (intro conjI allI impI)
  assume "versions ln ! (size_node ln - 1) \<le> snapshot"
  with assms(2) show "is_snapshot_consistent ln snapshot commit = Inr True"
    by (simp add: isc_unfold)
next
  fix i
  assume "Suc i < size_node ln \<and> versions ln ! i \<le> snapshot \<and>
          snapshot < versions ln ! Suc i"
  then show "is_snapshot_consistent ln snapshot commit =
              (if versions ln ! Suc i = commit then Inl InvariantViolation
               else Inr (versions ln ! Suc i > commit))"
    using isc_slow [OF assms(1,3), of i snapshot commit] by simp
next
  assume "\<forall>i < size_node ln. snapshot < versions ln ! i"
  with assms(2) show "is_snapshot_consistent ln snapshot commit = Inr False"
    by (simp add: isc_none)
qed

text \<open>The claim as stated promises the value false when \<open>versions[i + 1] = commit_tid\<close>.
  On the node with entries at 0 and 6, a read at snapshot 5 validated for commit 6 returns
  no value: it ends with an invariant violation. And the index \<open>i\<close> of the claim has to
  be that of the entry active at the snapshot, not that of any entry with a timestamp
  \<open>\<le> snapshot_tid\<close>: on the node with timestamps 3, 5, 9, at snapshot 6 and commit 7,
  entry 0 has such a timestamp and \<open>versions[1] = 5\<close> is not greater than 7, yet the
  call returns true, since \<open>versions[2] = 9\<close> is.\<close>

theorem is_snapshot_consistent_counterexample:
  "wf_node \<lparr>hdr = 0x4, versions = [0, 6] @ replicate 13 0, values_arr = replicate 15 0\<rparr> \<and>
   strictly_increasing
     \<lparr>hdr = 0x4, versions = [0, 6] @ replicate 13 0, values_arr = replicate 15 0\<rparr> \<and>
   size_node \<lparr>hdr = 0x4, versions = [0, 6] @ replicate 13 0, values_arr = replicate 15 0\<rparr> = 2 \<and>
   \<not> versions
       \<lparr>hdr = 0x4, versions = [0, 6] @ replicate 13 0, values_arr = replicate 15 0\<rparr> ! 1 \<le> 5 \<and>
   versions \<lparr>hdr = 0x4, versions = [0, 6] @ replicate 13 0, values_arr = replicate 15 0\<rparr> ! 0 \<le> 5 \<and>
   is_snapshot_consistent
     \<lparr>hdr = 0x4, versions = [0, 6] @ replicate 13 0, values_arr = replicate 15 0\<rparr> 5 6
     = Inl InvariantViolation \<and>
   is_snapshot_consistent
     \<lparr>hdr = 0x4, versions = [0, 6] @ replicate 13 0, values_arr = replicate 15 0\<rparr> 5 6
     \<noteq> Inr (versions
       \<lparr>hdr = 0x4, versions = [0, 6] @ replicate 13 0, values_arr = replicate 15 0\<rparr> ! 1 > 6) \<and>
   strictly_increasing
     \<lparr>hdr = 0x6, versions = [3, 5, 9] @ replicate 12 0, values_arr = replicate 15 0\<rparr> \<and>
   size_node \<lparr>hdr = 0x6, versions = [3, 5, 9] @ replicate 12 0, values_arr = replicate 15 0\<rparr> = 3 \<and>
   \<not> versions
       \<lparr>hdr = 0x6, versions = [3, 5, 9] @ replicate 12 0, values_arr = replicate 15 0\<rparr> ! 2 \<le> 6 \<and>
   versions \<lparr>hdr = 0x6, versions = [3, 5, 9] @ replicate 12 0, values_arr = replicate 15 0\<rparr> ! 0 \<le> 6 \<and>
   is_snapshot_consistent
     \<lparr>hdr = 0x6, versions = [3, 5, 9] @ replicate 12 0, values_arr = replicate 15 0\<rparr> 6 7
     = Inr True \<and>
   is_snapshot_consistent
     \<lparr>hdr = 0x6, versions = [3, 5, 9] @ replicate 12 0, values_arr = replicate 15 0\<rparr> 6 7
     \<noteq> Inr (versions
       \<lparr>hdr = 0x6, versions = [3, 5, 9] @ replicate 12 0, values_arr = replicate 15 0\<rparr> ! 1 > 7)"
  by (simp add: wf_node_def NVersions_def strictly_increasing_def size_node_def Size_take_bit
        is_snapshot_consistent_def is_snapshot_consistent_loop.simps)

text \<open>The theorem at the node with timestamps 3, 5, 9: the fast path, the slow path
  with both answers and with the failing assertion, and a snapshot older than every
  retained entry.\<close>

theorem is_snapshot_consistent_spec_witness:
  "wf_node \<lparr>hdr = 0x6, versions = [3, 5, 9] @ replicate 12 0,
            values_arr = [70, 100, 200] @ replicate 12 0\<rparr> \<and>
   0 < size_node \<lparr>hdr = 0x6, versions = [3, 5, 9] @ replicate 12 0,
            values_arr = [70, 100, 200] @ replicate 12 0\<rparr> \<and>
   strictly_increasing \<lparr>hdr = 0x6, versions = [3, 5, 9] @ replicate 12 0,
            values_arr = [70, 100, 200] @ replicate 12 0\<rparr> \<and>
   is_snapshot_consistent \<lparr>hdr = 0x6, versions = [3, 5, 9] @ replicate 12 0,
            values_arr = [70, 100, 200] @ replicate 12 0\<rparr> 10 11 = Inr True \<and>
   is_snapshot_consistent \<lparr>hdr = 0x6, versions = [3, 5, 9] @ replicate 12 0,
            values_arr = [70, 100, 200] @ replicate 12 0\<rparr> 6 7 = Inr True \<and>
   is_snapshot_consistent \<lparr>hdr = 0x6, versions = [3, 5, 9] @ replicate 12 0,
            values_arr = [70, 100, 200] @ replicate 12 0\<rparr> 6 12 = Inr False \<and>
   is_snapshot_consistent \<lparr>hdr = 0x6, versions = [3, 5, 9] @ replicate 12 0,
            values_arr = [70, 100, 200] @ replicate 12 0\<rparr> 2 4 = Inr False \<and>
   is_snapshot_consistent \<lparr>hdr = 0x6, versions = [3, 5, 9] @ replicate 12 0,
            values_arr = [70, 100, 200] @ replicate 12 0\<rparr> 6 9 = Inl InvariantViolation"
proof -
  let ?N = "\<lparr>hdr = 0x6, versions = [3, 5, 9] @ replicate 12 0,
            values_arr = [70, 100, 200] @ replicate 12 0\<rparr>"
  have wf: "wf_node ?N" by (simp add: wf_node_def NVersions_def)
  have sz: "size_node ?N = 3" by (simp add: size_node_def Size_take_bit)
  have si: "strictly_increasing ?N"
    by (simp add: strictly_increasing_def size_node_def Size_take_bit)
  have h: "0 < size_node ?N" using sz by simp
  have lt3: "(\<forall>i<3. P i) \<longleftrightarrow> P 0 \<and> P 1 \<and> P (2::nat)" for P
    by (auto simp: eval_nat_numeral less_Suc_eq)
  have a: "is_snapshot_consistent ?N 10 11 = Inr True"
    using is_snapshot_consistent_spec [OF wf h si, of 10 11] unfolding sz by simp
  have b: "is_snapshot_consistent ?N 6 7 = Inr True"
    using is_snapshot_consistent_spec [OF wf h si, of 6 7, THEN conjunct2, THEN conjunct1,
        THEN spec, of 1] unfolding sz by simp
  have c: "is_snapshot_consistent ?N 6 12 = Inr False"
    using is_snapshot_consistent_spec [OF wf h si, of 6 12, THEN conjunct2, THEN conjunct1,
        THEN spec, of 1] unfolding sz by simp
  have d: "is_snapshot_consistent ?N 2 4 = Inr False"
    using is_snapshot_consistent_spec [OF wf h si, of 2 4] unfolding sz lt3 by simp
  have e: "is_snapshot_consistent ?N 6 9 = Inl InvariantViolation"
    using is_snapshot_consistent_spec [OF wf h si, of 6 9, THEN conjunct2, THEN conjunct1,
        THEN spec, of 1] unfolding sz by simp
  from wf h si a b c d e show ?thesis by (simp only:)
qed

subsection \<open>write_record_at\<close>

lemma shift_step_list:
  assumes "length xs = 15" and "i < 14"
  shows "take (Suc i) (xs[i := xs ! Suc i]) @ drop (Suc (Suc i)) (xs[i := xs ! Suc i]) @
           [xs[i := xs ! Suc i] ! 14]
         = take i xs @ drop (Suc i) xs @ [xs ! 14]"
proof -
  from assms have "take (Suc i) (xs[i := xs ! Suc i]) = take i xs @ [xs ! Suc i]"
    by (simp add: take_Suc_conv_app_nth)
  moreover have "drop (Suc (Suc i)) (xs[i := xs ! Suc i]) = drop (Suc (Suc i)) xs"
    by simp
  moreover from assms have "xs[i := xs ! Suc i] ! 14 = xs ! 14"
    by simp
  moreover from assms have "xs ! Suc i # drop (Suc (Suc i)) xs = drop (Suc i) xs"
    by (simp add: Cons_nth_drop_Suc)
  ultimately show ?thesis by (metis append_Cons append_Nil append_assoc)
qed

lemma write_record_at_shift_eq:
  "wf_node ln \<Longrightarrow> i \<le> 14 \<Longrightarrow>
   write_record_at_shift ln i =
     ln\<lparr>versions := take i (versions ln) @ drop (Suc i) (versions ln) @ [versions ln ! 14],
        values_arr := take i (values_arr ln) @ drop (Suc i) (values_arr ln) @ [values_arr ln ! 14]\<rparr>"
proof (induction ln i rule: write_record_at_shift.induct)
  case (1 ln i)
  from "1.prems" have lv: "length (versions ln) = 15" and la: "length (values_arr ln) = 15"
    by (simp_all add: wf_node_def NVersions_def)
  show ?case
  proof (cases "i < 14")
    case True
    let ?ln1 = "ln\<lparr>versions := (versions ln)[i := versions ln ! (i + 1)],
                  values_arr := (values_arr ln)[i := values_arr ln ! (i + 1)]\<rparr>"
    from True have c: "i < NVersions - 1" by (simp add: NVersions_def)
    from "1.prems" have wf1: "wf_node ?ln1" by (simp add: wf_node_def)
    from True have "i + 1 \<le> 14" by simp
    from "1.IH" [OF c wf1 this]
    have "write_record_at_shift ?ln1 (i + 1) =
      ?ln1\<lparr>versions := take (i + 1) (versions ?ln1) @ drop (Suc (i + 1)) (versions ?ln1) @
                  [versions ?ln1 ! 14],
            values_arr := take (i + 1) (values_arr ?ln1) @ drop (Suc (i + 1)) (values_arr ?ln1) @
                  [values_arr ?ln1 ! 14]\<rparr>" .
    also have "\<dots> = ln\<lparr>versions := take i (versions ln) @ drop (Suc i) (versions ln) @ [versions ln ! 14],
        values_arr := take i (values_arr ln) @ drop (Suc i) (values_arr ln) @ [values_arr ln ! 14]\<rparr>"
      using shift_step_list [OF lv True] shift_step_list [OF la True] by simp
    finally show ?thesis
      using c by (subst write_record_at_shift.simps) simp
  next
    case False
    with "1.prems" have i: "i = 14" by simp
    have "take 14 xs @ [xs ! 14] = xs" if "length xs = 15" for xs :: "'a list"
      using that take_Suc_conv_app_nth [of 14 xs] by simp
    with lv la have "take 14 (versions ln) @ [versions ln ! 14] = versions ln"
      and "take 14 (values_arr ln) @ [values_arr ln ! 14] = values_arr ln" by blast+
    with lv la i show ?thesis
      by (subst write_record_at_shift.simps) (simp add: NVersions_def)
  qed
qed

lemma write_record_at_shift_0:
  assumes "wf_node ln"
  shows "write_record_at_shift ln 0 =
     ln\<lparr>versions := tl (versions ln) @ [versions ln ! 14],
        values_arr := tl (values_arr ln) @ [values_arr ln ! 14]\<rparr>"
  using write_record_at_shift_eq [OF assms, of 0] by (simp add: drop_Suc)

lemma write_record_at_full:
  assumes wf: "wf_node ln" and "is_locked ln" and "size_node ln = 15"
    and "versions ln ! 14 < t"
  shows "write_record_at ln t r =
     Inr (ln\<lparr>versions := tl (versions ln) @ [t], values_arr := tl (values_arr ln) @ [r]\<rparr>)"
proof -
  from wf have "length (tl (versions ln)) = 14" "length (tl (values_arr ln)) = 14"
    by (simp_all add: wf_node_def NVersions_def)
  then have "(tl (versions ln) @ [x])[14 := t] = tl (versions ln) @ [t]"
    and "(tl (values_arr ln) @ [y])[14 := r] = tl (values_arr ln) @ [r]" for x y
    by (simp_all add: list_update_append)
  with assms show ?thesis
    by (simp add: write_record_at_def Let_def NVersions_def write_record_at_shift_0)
qed

lemma write_record_at_append:
  assumes "is_locked ln" and "0 < size_node ln" and "size_node ln < 15"
    and "versions ln ! (size_node ln - 1) < t"
  shows "\<exists>h. write_record_at ln t r =
           Inr (ln\<lparr>versions := (versions ln)[size_node ln := t],
                   values_arr := (values_arr ln)[size_node ln := r], hdr := h\<rparr>) \<and>
         Size h = size_node ln + 1 \<and> IsLocked h \<and> Version h = Version (hdr ln)"
proof -
  let ?ln1 = "ln\<lparr>versions := (versions ln)[size_node ln := t],
                  values_arr := (values_arr ln)[size_node ln := r]\<rparr>"
  from assms(3) have "size_node ln + 1 \<le> 15" by simp
  from set_size_ok [OF this, of ?ln1] obtain h where
    h: "set_size ?ln1 (size_node ln + 1) = Inr (?ln1\<lparr>hdr := h\<rparr>)"
      "Size h = size_node ln + 1" "IsLocked h = IsLocked (hdr ln)" "Version h = Version (hdr ln)"
    by auto
  from assms h(1) have "write_record_at ln t r = Inr (?ln1\<lparr>hdr := h\<rparr>)"
    by (simp add: write_record_at_def Let_def NVersions_def)
  with h(2-4) assms(1) show ?thesis
    by (auto simp: is_locked_def)
qed


lemma retained_all_less:
  assumes wf: "wf_node ln" and si: "strictly_increasing ln" and n: "0 < size_node ln"
    and t: "versions ln ! (size_node ln - 1) < t"
  shows "\<forall>x \<in> set (take (size_node ln) (versions ln)). x < t"
proof
  fix x assume "x \<in> set (take (size_node ln) (versions ln))"
  moreover from wf size_node_le [of ln]
  have "length (take (size_node ln) (versions ln)) = size_node ln"
    by (simp add: wf_node_def NVersions_def)
  ultimately obtain i where i: "i < size_node ln" and x: "x = versions ln ! i"
    by (auto simp: in_set_conv_nth)
  show "x < t"
  proof (cases "i = size_node ln - 1")
    case True with t x show ?thesis by simp
  next
    case False
    with i n have "i < size_node ln - 1" "size_node ln - 1 < size_node ln" by simp_all
    from strictly_increasing_nth [OF wf si this] t x show ?thesis by simp
  qed
qed

lemma take_Suc_zip_update:
  "n < length xs \<Longrightarrow> n < length ys \<Longrightarrow>
   take (Suc n) (zip (xs[n := x]) (ys[n := y])) = take n (zip xs ys) @ [(x, y)]"
  by (simp add: zip_update take_Suc_conv_app_nth)

lemma zip_tl: "zip (tl xs) (tl ys) = tl (zip xs ys)"
  by (cases xs; cases ys) simp_all

text \<open>
  Claim C2, as amended. On a locked node with \<open>0 < count\<close> and strictly increasing
  retained timestamps, and for \<open>t\<close> greater than the newest retained timestamp,
  \<open>write_record_at\<close> appends \<open>(t, r)\<close>: below 15 entries the pair goes to slot \<open>count\<close>
  and the count grows by one; at 15 entries every slot moves down one, the oldest entry
  is dropped, \<open>(t, r)\<close> goes to slot 14 and the count stays 15, so that slot 0 holds the
  entry that was second oldest. In both cases the retained timestamps stay strictly
  increasing, the node stays locked and its stamp is unchanged.
\<close>

theorem write_record_at_spec:
  assumes wf: "wf_node ln" and lk: "is_locked ln" and n0: "0 < size_node ln"
    and si: "strictly_increasing ln" and t: "versions ln ! (size_node ln - 1) < t"
  shows "\<exists>ln'. write_record_at ln t r = Inr ln' \<and> wf_node ln' \<and>
     (size_node ln < 15 \<longrightarrow>
        size_node ln' = size_node ln + 1 \<and>
        versions ln' = (versions ln)[size_node ln := t] \<and>
        values_arr ln' = (values_arr ln)[size_node ln := r] \<and>
        retained ln' = retained ln @ [(t, r)]) \<and>
     (size_node ln = 15 \<longrightarrow>
        size_node ln' = 15 \<and>
        versions ln' = tl (versions ln) @ [t] \<and>
        values_arr ln' = tl (values_arr ln) @ [r] \<and>
        retained ln' = tl (retained ln) @ [(t, r)] \<and>
        retained ln' ! 0 = retained ln ! 1 \<and> retained ln' ! 14 = (t, r)) \<and>
     strictly_increasing ln' \<and> is_locked ln' \<and> Version (hdr ln') = Version (hdr ln)"
proof (cases "size_node ln = 15")
  case True
  let ?ln' = "ln\<lparr>versions := tl (versions ln) @ [t], values_arr := tl (values_arr ln) @ [r]\<rparr>"
  from wf have lv: "length (versions ln) = 15" and la: "length (values_arr ln) = 15"
    by (simp_all add: wf_node_def NVersions_def)
  from t True have w: "write_record_at ln t r = Inr ?ln'"
    using write_record_at_full [OF wf lk True] by simp
  have sz: "size_node ?ln' = 15" using True by (simp add: size_node_def)
  have wf': "wf_node ?ln'" using lv la by (simp add: wf_node_def NVersions_def)
  have rl: "retained ln = zip (versions ln) (values_arr ln)"
    using lv la True by (simp add: retained_def)
  have "retained ?ln' = tl (zip (versions ln) (values_arr ln)) @ [(t, r)]"
    using lv la by (simp add: retained_def sz zip_tl)
  then have rt: "retained ?ln' = tl (retained ln) @ [(t, r)]"
    by (simp only: rl)
  have "length (tl (retained ln)) = 14" using lv la by (simp add: rl)
  then have r0: "retained ?ln' ! 0 = retained ln ! 1" and r14: "retained ?ln' ! 14 = (t, r)"
    unfolding rt by (simp_all add: nth_append nth_tl)
  from si True lv have sv: "sorted_wrt (<) (versions ln)"
    by (simp add: strictly_increasing_def)
  then have "sorted_wrt (<) (tl (versions ln))"
    by (cases "versions ln") simp_all
  moreover have "\<forall>x \<in> set (tl (versions ln)). x < t"
    using retained_all_less [OF wf si n0 t] True lv
    by (cases "versions ln") auto
  ultimately have si': "strictly_increasing ?ln'"
    using lv by (simp add: strictly_increasing_def sz sorted_wrt_append)
  from lk have "is_locked ?ln'" by (simp add: is_locked_def)
  with w wf' sz rt r0 r14 si' True show ?thesis by simp
next
  case False
  with size_node_le [of ln] have lt: "size_node ln < 15" by simp
  from wf have lv: "length (versions ln) = 15" and la: "length (values_arr ln) = 15"
    by (simp_all add: wf_node_def NVersions_def)
  from write_record_at_append [OF lk n0 lt t, of r] obtain h where
    w: "write_record_at ln t r =
           Inr (ln\<lparr>versions := (versions ln)[size_node ln := t],
                   values_arr := (values_arr ln)[size_node ln := r], hdr := h\<rparr>)"
    and h: "Size h = size_node ln + 1" "IsLocked h" "Version h = Version (hdr ln)"
    by blast
  let ?ln' = "ln\<lparr>versions := (versions ln)[size_node ln := t],
                   values_arr := (values_arr ln)[size_node ln := r], hdr := h\<rparr>"
  have sz: "size_node ?ln' = size_node ln + 1" using h(1) by (simp add: size_node_def)
  have wf': "wf_node ?ln'" using wf by (simp add: wf_node_def)
  have rt: "retained ?ln' = retained ln @ [(t, r)]"
    using lt lv la by (simp add: retained_def sz take_Suc_zip_update del: take_Suc)
  have "take (Suc (size_node ln)) ((versions ln)[size_node ln := t]) =
        take (size_node ln) (versions ln) @ [t]"
    using lt lv by (simp add: take_Suc_conv_app_nth)
  moreover from si have "sorted_wrt (<) (take (size_node ln) (versions ln))"
    by (simp add: strictly_increasing_def)
  ultimately have si': "strictly_increasing ?ln'"
    using retained_all_less [OF wf si n0 t]
    by (simp add: strictly_increasing_def sz sorted_wrt_append)
  from h(2) have "is_locked ?ln'" by (simp add: is_locked_def)
  with w wf' sz rt si' h(3) lt show ?thesis by simp
qed

text \<open>The claim as stated covers nodes whose locked bit is clear. On such a node
  \<open>write_record_at\<close> appends nothing: its first assertion fails.\<close>

theorem write_record_at_counterexample:
  "wf_node \<lparr>hdr = 0x2, versions = replicate 15 0, values_arr = replicate 15 0\<rparr> \<and>
   strictly_increasing \<lparr>hdr = 0x2, versions = replicate 15 0, values_arr = replicate 15 0\<rparr> \<and>
   size_node \<lparr>hdr = 0x2, versions = replicate 15 0, values_arr = replicate 15 0\<rparr> = 1 \<and>
   versions \<lparr>hdr = 0x2, versions = replicate 15 0, values_arr = replicate 15 0\<rparr> ! 0 < 1 \<and>
   write_record_at \<lparr>hdr = 0x2, versions = replicate 15 0, values_arr = replicate 15 0\<rparr> 1 7
     = Inl InvariantViolation \<and>
   \<not> (\<exists>ln'. write_record_at
           \<lparr>hdr = 0x2, versions = replicate 15 0, values_arr = replicate 15 0\<rparr> 1 7 = Inr ln')"
  by (simp add: wf_node_def NVersions_def strictly_increasing_def size_node_def Size_take_bit
        write_record_at_def is_locked_def IsLocked_bit)

text \<open>The theorem at a locked node with three entries and at a locked node that is full.\<close>

theorem write_record_at_spec_witness:
  "wf_node \<lparr>hdr = 0x7, versions = [3, 5, 9] @ replicate 12 0,
            values_arr = [70, 100, 200] @ replicate 12 0\<rparr> \<and>
   is_locked \<lparr>hdr = 0x7, versions = [3, 5, 9] @ replicate 12 0,
            values_arr = [70, 100, 200] @ replicate 12 0\<rparr> \<and>
   0 < size_node \<lparr>hdr = 0x7, versions = [3, 5, 9] @ replicate 12 0,
            values_arr = [70, 100, 200] @ replicate 12 0\<rparr> \<and>
   strictly_increasing \<lparr>hdr = 0x7, versions = [3, 5, 9] @ replicate 12 0,
            values_arr = [70, 100, 200] @ replicate 12 0\<rparr> \<and>
   (\<exists>ln'. write_record_at \<lparr>hdr = 0x7, versions = [3, 5, 9] @ replicate 12 0,
            values_arr = [70, 100, 200] @ replicate 12 0\<rparr> 12 300 = Inr ln' \<and>
      size_node ln' = 4 \<and> retained ln' = [(3, 70), (5, 100), (9, 200), (12, 300)] \<and>
      strictly_increasing ln') \<and>
   wf_node \<lparr>hdr = 0x1F, versions = [1, 2, 3, 4, 5, 6, 7, 8, 9, 10, 11, 12, 13, 14, 15],
            values_arr = replicate 15 8\<rparr> \<and>
   is_locked \<lparr>hdr = 0x1F, versions = [1, 2, 3, 4, 5, 6, 7, 8, 9, 10, 11, 12, 13, 14, 15],
            values_arr = replicate 15 8\<rparr> \<and>
   size_node \<lparr>hdr = 0x1F, versions = [1, 2, 3, 4, 5, 6, 7, 8, 9, 10, 11, 12, 13, 14, 15],
            values_arr = replicate 15 8\<rparr> = 15 \<and>
   strictly_increasing \<lparr>hdr = 0x1F, versions = [1, 2, 3, 4, 5, 6, 7, 8, 9, 10, 11, 12, 13, 14, 15],
            values_arr = replicate 15 8\<rparr> \<and>
   (\<exists>ln'. write_record_at \<lparr>hdr = 0x1F,
            versions = [1, 2, 3, 4, 5, 6, 7, 8, 9, 10, 11, 12, 13, 14, 15],
            values_arr = replicate 15 8\<rparr> 20 9 = Inr ln' \<and>
      size_node ln' = 15 \<and>
      versions ln' = [2, 3, 4, 5, 6, 7, 8, 9, 10, 11, 12, 13, 14, 15, 20] \<and>
      retained ln' ! 0 = (2, 8) \<and> retained ln' ! 14 = (20, 9) \<and> strictly_increasing ln')"
proof -
  let ?A = "\<lparr>hdr = 0x7, versions = [3, 5, 9] @ replicate 12 0,
            values_arr = [70, 100, 200] @ replicate 12 0\<rparr>"
  let ?F = "\<lparr>hdr = 0x1F, versions = [1, 2, 3, 4, 5, 6, 7, 8, 9, 10, 11, 12, 13, 14, 15],
            values_arr = replicate 15 8\<rparr>"
  have wfA: "wf_node ?A" by (simp add: wf_node_def NVersions_def)
  have lkA: "is_locked ?A" by (simp add: is_locked_def IsLocked_bit)
  have szA: "size_node ?A = 3" by (simp add: size_node_def Size_take_bit)
  have siA: "strictly_increasing ?A"
    by (simp add: strictly_increasing_def size_node_def Size_take_bit)
  have rtA: "retained ?A = [(3, 70), (5, 100), (9, 200)]"
    by (simp add: retained_def size_node_def Size_take_bit)
  have n0A: "0 < size_node ?A" using szA by simp
  have tA: "versions ?A ! (size_node ?A - 1) < 12" unfolding szA by simp
  have wfF: "wf_node ?F" by (simp add: wf_node_def NVersions_def)
  have lkF: "is_locked ?F" by (simp add: is_locked_def IsLocked_bit)
  have szF: "size_node ?F = 15" by (simp add: size_node_def Size_take_bit)
  have siF: "strictly_increasing ?F"
    by (simp add: strictly_increasing_def size_node_def Size_take_bit)
  have rtF: "retained ?F ! 1 = (2, 8)"
    by (simp add: retained_def size_node_def Size_take_bit)
  have n0F: "0 < size_node ?F" using szF by simp
  have tF: "versions ?F ! (size_node ?F - 1) < 20" unfolding szF by simp
  have a: "\<exists>ln'. write_record_at ?A 12 300 = Inr ln' \<and>
      size_node ln' = 4 \<and> retained ln' = [(3, 70), (5, 100), (9, 200), (12, 300)] \<and>
      strictly_increasing ln'"
    using write_record_at_spec [OF wfA lkA n0A siA tA, of 300] unfolding szA rtA by auto
  have f: "\<exists>ln'. write_record_at ?F 20 9 = Inr ln' \<and>
      size_node ln' = 15 \<and>
      versions ln' = [2, 3, 4, 5, 6, 7, 8, 9, 10, 11, 12, 13, 14, 15, 20] \<and>
      retained ln' ! 0 = (2, 8) \<and> retained ln' ! 14 = (20, 9) \<and> strictly_increasing ln'"
    using write_record_at_spec [OF wfF lkF n0F siF tF, of 9] unfolding szF rtF by auto
  from wfA lkA n0A siA a wfF lkF szF siF f show ?thesis by (simp only:)
qed

section \<open>Key ranges\<close>

text \<open>
  Claim C6. \<open>key_in_range\<close> holds of a key \<open>k\<close> exactly when \<open>a \<le> k\<close> and the range is
  unbounded or \<open>k < b\<close>: the keys of a range are the half-open interval from \<open>a\<close> to
  \<open>b\<close>, or all keys from \<open>a\<close> on. A bounded range with \<open>a \<ge> b\<close> (\<open>is_empty_range\<close>)
  holds no key.
\<close>

theorem key_in_range_spec:
  "(key_in_range rng k \<longleftrightarrow> a rng \<le> k \<and> (\<not> has_b rng \<or> k < b rng)) \<and>
   {k. key_in_range rng k} = (if has_b rng then {a rng ..< b rng} else {a rng ..}) \<and>
   (is_empty_range rng \<longrightarrow> \<not> key_in_range rng k)"
  by (auto simp: key_in_range_def is_empty_range_def)

text \<open>The theorem at a bounded range, at an unbounded range and at an empty range.\<close>

theorem key_in_range_spec_witness:
  "key_in_range \<lparr>a = ''b'', has_b = True, b = ''d''\<rparr> ''c'' \<and>
   \<not> key_in_range \<lparr>a = ''b'', has_b = True, b = ''d''\<rparr> ''d'' \<and>
   key_in_range \<lparr>a = ''b'', has_b = False, b = ''''\<rparr> ''zz'' \<and>
   is_empty_range \<lparr>a = ''d'', has_b = True, b = ''b''\<rparr> \<and>
   \<not> key_in_range \<lparr>a = ''d'', has_b = True, b = ''b''\<rparr> ''c''"
  using key_in_range_spec [of "\<lparr>a = ''b'', has_b = True, b = ''d''\<rparr>" "''c''"]
    key_in_range_spec [of "\<lparr>a = ''b'', has_b = True, b = ''d''\<rparr>" "''d''"]
    key_in_range_spec [of "\<lparr>a = ''b'', has_b = False, b = ''''\<rparr>" "''zz''"]
    key_in_range_spec [of "\<lparr>a = ''d'', has_b = True, b = ''b''\<rparr>" "''c''"]
  by (simp add: is_empty_range_def)

text \<open>
  Claim C7. The comparator \<open>key_range_search_less_cmp\<close> holds of a key and a range
  exactly when the range is unbounded or the key is strictly less than the upper bound
  \<open>b\<close>; replacing the lower bound \<open>a\<close> of the range does not change its answer.
\<close>

theorem key_range_search_less_cmp_spec:
  "(key_range_search_less_cmp k rng \<longleftrightarrow> \<not> has_b rng \<or> k < b rng) \<and>
   key_range_search_less_cmp k (rng\<lparr>a := lower\<rparr>) = key_range_search_less_cmp k rng"
  by (simp add: key_range_search_less_cmp_def)

text \<open>The theorem at keys below and at the upper bound, and at an unbounded range.\<close>

theorem key_range_search_less_cmp_spec_witness:
  "key_range_search_less_cmp ''a'' \<lparr>a = ''b'', has_b = True, b = ''d''\<rparr> \<and>
   \<not> key_range_search_less_cmp ''d'' \<lparr>a = ''b'', has_b = True, b = ''d''\<rparr> \<and>
   key_range_search_less_cmp ''zz'' \<lparr>a = ''b'', has_b = False, b = ''''\<rparr> \<and>
   key_range_search_less_cmp ''a'' (\<lparr>a = ''b'', has_b = True, b = ''d''\<rparr>\<lparr>a := ''x''\<rparr>)"
  using key_range_search_less_cmp_spec [of "''a''" "\<lparr>a = ''b'', has_b = True, b = ''d''\<rparr>" "''x''"]
    key_range_search_less_cmp_spec [of "''d''" "\<lparr>a = ''b'', has_b = True, b = ''d''\<rparr>" "''x''"]
    key_range_search_less_cmp_spec [of "''zz''" "\<lparr>a = ''b'', has_b = False, b = ''''\<rparr>" "''x''"]
  by simp

text \<open>
  Claim C10. When \<open>contains r1 r2\<close> holds, every key in \<open>r2\<close> is a key in \<open>r1\<close>.
\<close>

theorem contains_sound:
  "contains r1 r2 \<Longrightarrow> key_in_range r2 k \<Longrightarrow> key_in_range r1 k"
  by (auto simp: contains_def key_in_range_def split: if_splits)

text \<open>The theorem at two nested bounded ranges.\<close>

theorem contains_sound_witness:
  "contains \<lparr>a = ''b'', has_b = True, b = ''f''\<rparr> \<lparr>a = ''c'', has_b = True, b = ''d''\<rparr> \<and>
   key_in_range \<lparr>a = ''c'', has_b = True, b = ''d''\<rparr> ''cx'' \<and>
   key_in_range \<lparr>a = ''b'', has_b = True, b = ''f''\<rparr> ''cx''"
proof -
  have c: "contains \<lparr>a = ''b'', has_b = True, b = ''f''\<rparr> \<lparr>a = ''c'', has_b = True, b = ''d''\<rparr>"
    by (simp add: contains_def)
  have k: "key_in_range \<lparr>a = ''c'', has_b = True, b = ''d''\<rparr> ''cx''"
    by (simp add: key_in_range_def)
  from c k contains_sound [OF c k] show ?thesis by (simp only:)
qed

section \<open>The absent range set\<close>

lemma contains_key_in_range:
  "contains r1 r2 \<Longrightarrow> key_in_range r2 k \<Longrightarrow> key_in_range r1 k"
  by (auto simp: contains_def key_in_range_def split: if_splits)

lemma range_hull_nonempty:
  "\<not> is_empty_range r1 \<Longrightarrow> \<not> is_empty_range r2 \<Longrightarrow> \<not> is_empty_range (range_hull r1 r2)"
  by (auto simp: is_empty_range_def range_hull_def min_def max_def)

lemma key_in_range_hull:
  "\<not> is_empty_range r1 \<Longrightarrow> \<not> is_empty_range r2 \<Longrightarrow>
   \<not> range_before r1 r2 \<Longrightarrow> \<not> range_before r2 r1 \<Longrightarrow>
   key_in_range (range_hull r1 r2) k \<longleftrightarrow> key_in_range r1 k \<or> key_in_range r2 k"
  by (auto simp: is_empty_range_def range_hull_def range_before_def key_in_range_def
        min_def max_def)

lemma range_before_trans:
  "range_before r1 r2 \<Longrightarrow> \<not> is_empty_range r2 \<Longrightarrow> range_before r2 r3 \<Longrightarrow> range_before r1 r3"
  by (auto simp: range_before_def is_empty_range_def)

lemma range_before_disjoint:
  "range_before r1 r2 \<Longrightarrow> key_in_range r1 k \<Longrightarrow> \<not> key_in_range r2 k"
  by (auto simp: range_before_def key_in_range_def)

lemma insert_range_lower:
  "c < a rng \<Longrightarrow> \<forall>y \<in> set xs. c < a y \<Longrightarrow> \<forall>y \<in> set (insert_range rng xs). c < a y"
  by (induction rng xs rule: insert_range.induct) (auto simp: range_hull_def min_def)

lemma valid_range_set_Cons:
  "valid_range_set (x # xs) \<longleftrightarrow>
     \<not> is_empty_range x \<and> (\<forall>y \<in> set xs. range_before x y) \<and> valid_range_set xs"
  by (auto simp: valid_range_set_def)

lemma valid_insert_range:
  "valid_range_set xs \<Longrightarrow> \<not> is_empty_range rng \<Longrightarrow> valid_range_set (insert_range rng xs)"
proof (induction rng xs rule: insert_range.induct)
  case (1 rng)
  then show ?case by (simp add: valid_range_set_def)
next
  case (2 rng x xs)
  from "2.prems" have x: "\<not> is_empty_range x" and bx: "\<forall>y \<in> set xs. range_before x y"
    and vxs: "valid_range_set xs"
    by (simp_all add: valid_range_set_Cons)
  show ?case
  proof (cases "range_before rng x")
    case True
    with x bx have "\<forall>y \<in> set (x # xs). range_before rng y"
      by (auto intro: range_before_trans)
    with True "2.prems" show ?thesis by (simp add: valid_range_set_Cons)
  next
    case nb: False
    show ?thesis
    proof (cases "range_before x rng")
      case True
      from True bx have "\<forall>y \<in> set (insert_range rng xs). b x < a y"
        by (intro insert_range_lower) (auto simp: range_before_def)
      with True have "\<forall>y \<in> set (insert_range rng xs). range_before x y"
        by (simp add: range_before_def)
      moreover from nb True vxs "2.prems"(2) have "valid_range_set (insert_range rng xs)"
        by (rule "2.IH"(1))
      ultimately show ?thesis using nb True x by (simp add: valid_range_set_Cons)
    next
      case nb': False
      show ?thesis
      proof (cases "contains x rng")
        case True
        with nb nb' "2.prems"(1) show ?thesis by simp
      next
        case False
        from "2.prems"(2) x have "\<not> is_empty_range (range_hull rng x)"
          by (rule range_hull_nonempty)
        with nb nb' False vxs have "valid_range_set (insert_range (range_hull rng x) xs)"
          by (rule "2.IH"(2))
        with nb nb' False show ?thesis by simp
      qed
    qed
  qed
qed

lemma key_in_insert_range:
  "valid_range_set xs \<Longrightarrow> \<not> is_empty_range rng \<Longrightarrow>
   (\<exists>y \<in> set (insert_range rng xs). key_in_range y k) \<longleftrightarrow>
   key_in_range rng k \<or> (\<exists>y \<in> set xs. key_in_range y k)"
proof (induction rng xs rule: insert_range.induct)
  case (1 rng)
  then show ?case by simp
next
  case (2 rng x xs)
  from "2.prems" have x: "\<not> is_empty_range x" and vxs: "valid_range_set xs"
    by (simp_all add: valid_range_set_Cons)
  show ?case
  proof (cases "range_before rng x")
    case True
    then show ?thesis by auto
  next
    case nb: False
    show ?thesis
    proof (cases "range_before x rng")
      case True
      with nb "2.IH"(1) [OF nb True vxs "2.prems"(2)] show ?thesis by auto
    next
      case nb': False
      show ?thesis
      proof (cases "contains x rng")
        case True
        with nb nb' show ?thesis by (auto dest: contains_key_in_range)
      next
        case False
        from "2.prems"(2) x have ne: "\<not> is_empty_range (range_hull rng x)"
          by (rule range_hull_nonempty)
        from "2.IH"(2) [OF nb nb' False vxs ne]
        have "(\<exists>y \<in> set (insert_range (range_hull rng x) xs). key_in_range y k) \<longleftrightarrow>
              key_in_range (range_hull rng x) k \<or> (\<exists>y \<in> set xs. key_in_range y k)" .
        also have "key_in_range (range_hull rng x) k \<longleftrightarrow> key_in_range rng k \<or> key_in_range x k"
          using "2.prems"(2) x nb nb' by (rule key_in_range_hull)
        finally show ?thesis using nb nb' False by auto
      qed
    qed
  qed
qed

text \<open>On a valid range set the comparator partitions the ranges: once it holds of a range
  it holds of every later one, so a binary search and a scan from the front agree.\<close>

lemma upper_bound_partitioned:
  assumes "valid_range_set rs" and "i \<le> j" and "j < length rs"
    and "key_range_search_less_cmp k (rs ! i)"
  shows "key_range_search_less_cmp k (rs ! j)"
proof (cases "i = j")
  case True
  with assms(4) show ?thesis by simp
next
  case False
  with assms(2) have "i < j" by simp
  with assms(1,3) have "range_before (rs ! i) (rs ! j)"
    by (simp add: valid_range_set_def sorted_wrt_iff_nth_less)
  moreover from assms(1,3) have "\<not> is_empty_range (rs ! j)"
    by (simp add: valid_range_set_def list_all_length)
  ultimately show ?thesis using assms(4)
    by (auto simp: range_before_def is_empty_range_def key_range_search_less_cmp_def)
qed

lemma upper_bound_valid:
  "valid_range_set rs \<Longrightarrow>
   (case upper_bound rs k of None \<Rightarrow> False | Some rng \<Rightarrow> key_in_range rng k) \<longleftrightarrow>
   (\<exists>y \<in> set rs. key_in_range y k)"
proof (induction rs)
  case Nil
  then show ?case by (simp add: upper_bound_def)
next
  case (Cons x xs)
  from Cons.prems have x: "\<not> is_empty_range x" and bx: "\<forall>y \<in> set xs. range_before x y"
    and vxs: "valid_range_set xs"
    by (simp_all add: valid_range_set_Cons)
  show ?case
  proof (cases "key_range_search_less_cmp k x")
    case True
    have "\<not> key_in_range y k" if "y \<in> set xs" "\<not> key_in_range x k" for y
    proof -
      from bx that(1) have "range_before x y" by blast
      with True that(2) x show ?thesis
        by (auto simp: range_before_def key_in_range_def key_range_search_less_cmp_def
              is_empty_range_def)
    qed
    with True show ?thesis by (auto simp: upper_bound_def)
  next
    case False
    then have "\<not> key_in_range x k"
      by (auto simp: key_in_range_def key_range_search_less_cmp_def)
    with False Cons.IH [OF vxs] show ?thesis by (simp add: upper_bound_def)
  qed
qed

lemma key_in_absent_set_valid:
  "valid_range_set (absent_range_set txn) \<Longrightarrow>
   key_in_absent_set txn k \<longleftrightarrow> (\<exists>y \<in> set (absent_range_set txn). key_in_range y k)"
  unfolding key_in_absent_set_def by (rule upper_bound_valid)

lemma add_absent_range_valid:
  "valid_range_set (absent_range_set txn) \<Longrightarrow>
   valid_range_set (absent_range_set (add_absent_range txn rng))"
  by (simp add: add_absent_range_def valid_insert_range)

lemma add_absent_range_keys:
  "valid_range_set (absent_range_set txn) \<Longrightarrow>
   (\<exists>y \<in> set (absent_range_set (add_absent_range txn rng)). key_in_range y k) \<longleftrightarrow>
   key_in_range rng k \<or> (\<exists>y \<in> set (absent_range_set txn). key_in_range y k)"
proof (cases "is_empty_range rng")
  case True
  then have "\<not> key_in_range rng k"
    by (auto simp: is_empty_range_def key_in_range_def)
  with True show ?thesis by (simp add: add_absent_range_def)
next
  case False
  assume "valid_range_set (absent_range_set txn)"
  with False show ?thesis
    by (simp add: add_absent_range_def key_in_insert_range)
qed

lemma foldl_add_absent_range:
  "valid_range_set (absent_range_set txn) \<Longrightarrow>
   valid_range_set (absent_range_set (foldl add_absent_range txn rngs)) \<and>
   ((\<exists>y \<in> set (absent_range_set (foldl add_absent_range txn rngs)). key_in_range y k) \<longleftrightarrow>
      (\<exists>y \<in> set (absent_range_set txn). key_in_range y k) \<or> (\<exists>r \<in> set rngs. key_in_range r k))"
proof (induction rngs arbitrary: txn)
  case Nil
  then show ?case by simp
next
  case (Cons r rngs)
  from Cons.prems have v: "valid_range_set (absent_range_set (add_absent_range txn r))"
    by (rule add_absent_range_valid)
  from Cons.IH [OF v] add_absent_range_keys [OF Cons.prems, of r k]
  show ?case by auto
qed

lemma valid_range_set_sorted:
  assumes "valid_range_set rs"
  shows "sorted (map a rs)"
proof -
  from assms have ne: "\<forall>r \<in> set rs. \<not> is_empty_range r" and sb: "sorted_wrt range_before rs"
    by (simp_all add: valid_range_set_def list_all_iff)
  have "sorted_wrt (\<lambda>r s. a r \<le> a s) rs"
  proof (rule sorted_wrt_mono_rel [OF _ sb])
    fix r s assume "r \<in> set rs" "s \<in> set rs" "range_before r s"
    with ne show "a r \<le> a s"
      by (auto simp: range_before_def is_empty_range_def)
  qed
  then show ?thesis by (simp add: sorted_map)
qed

lemma valid_range_set_disjoint:
  assumes "valid_range_set rs" and "i < j" and "j < length rs"
  shows "\<not> (key_in_range (rs ! i) k \<and> key_in_range (rs ! j) k)"
proof -
  from assms have "range_before (rs ! i) (rs ! j)"
    by (simp add: valid_range_set_def sorted_wrt_iff_nth_less)
  then show ?thesis by (auto dest: range_before_disjoint)
qed

text \<open>
  Claim C5. Starting from an empty \<open>absent_range_set\<close>, after any sequence \<open>rngs\<close> of
  \<open>add_absent_range\<close> calls the set is sorted (by lower bound, and every range ends
  before each later one starts) and pairwise non-overlapping (no key lies in two of its
  ranges), and \<open>key_in_absent_set\<close> holds of a key exactly when the key lies in some
  input range.
\<close>

theorem absent_range_set_spec:
  assumes "absent_range_set txn0 = []"
  shows "valid_range_set (absent_range_set (foldl add_absent_range txn0 rngs)) \<and>
     sorted_wrt range_before (absent_range_set (foldl add_absent_range txn0 rngs)) \<and>
     sorted (map a (absent_range_set (foldl add_absent_range txn0 rngs))) \<and>
     (\<forall>i j k. i < j \<and> j < length (absent_range_set (foldl add_absent_range txn0 rngs)) \<longrightarrow>
        \<not> (key_in_range (absent_range_set (foldl add_absent_range txn0 rngs) ! i) k \<and>
           key_in_range (absent_range_set (foldl add_absent_range txn0 rngs) ! j) k)) \<and>
     (\<forall>k. key_in_absent_set (foldl add_absent_range txn0 rngs) k \<longleftrightarrow>
        (\<exists>r \<in> set rngs. key_in_range r k))"
proof -
  let ?rs = "absent_range_set (foldl add_absent_range txn0 rngs)"
  from assms have v0: "valid_range_set (absent_range_set txn0)"
    by (simp add: valid_range_set_def)
  from foldl_add_absent_range [OF v0, of rngs] have v: "valid_range_set ?rs"
    by blast
  have keys: "key_in_absent_set (foldl add_absent_range txn0 rngs) k \<longleftrightarrow>
        (\<exists>r \<in> set rngs. key_in_range r k)" for k
    using foldl_add_absent_range [OF v0, of rngs k] assms
    by (simp add: key_in_absent_set_valid [OF v])
  from v have "sorted_wrt range_before ?rs"
    by (simp add: valid_range_set_def)
  moreover from v have "sorted (map a ?rs)"
    by (rule valid_range_set_sorted)
  moreover have "\<forall>i j k. i < j \<and> j < length ?rs \<longrightarrow>
        \<not> (key_in_range (?rs ! i) k \<and> key_in_range (?rs ! j) k)"
    using valid_range_set_disjoint [OF v] by blast
  ultimately show ?thesis using v keys by blast
qed

text \<open>The theorem after five calls, with overlapping, adjacent, unbounded and empty
  input ranges.\<close>

theorem absent_range_set_spec_witness:
  "absent_range_set \<lparr>snapshot_tid = 10, resolved = False, read_set = Map.empty,
      write_set = Map.empty, absent_range_set = []\<rparr> = [] \<and>
   absent_range_set (foldl add_absent_range
     \<lparr>snapshot_tid = 10, resolved = False, read_set = Map.empty,
      write_set = Map.empty, absent_range_set = []\<rparr>
     [\<lparr>a = ''b'', has_b = True, b = ''d''\<rparr>, \<lparr>a = ''x'', has_b = False, b = ''''\<rparr>,
      \<lparr>a = ''f'', has_b = True, b = ''h''\<rparr>, \<lparr>a = ''c'', has_b = True, b = ''f''\<rparr>,
      \<lparr>a = ''m'', has_b = True, b = ''k''\<rparr>])
     = [\<lparr>a = ''b'', has_b = True, b = ''h''\<rparr>, \<lparr>a = ''x'', has_b = False, b = ''''\<rparr>] \<and>
   key_in_absent_set (foldl add_absent_range
     \<lparr>snapshot_tid = 10, resolved = False, read_set = Map.empty,
      write_set = Map.empty, absent_range_set = []\<rparr>
     [\<lparr>a = ''b'', has_b = True, b = ''d''\<rparr>, \<lparr>a = ''x'', has_b = False, b = ''''\<rparr>,
      \<lparr>a = ''f'', has_b = True, b = ''h''\<rparr>, \<lparr>a = ''c'', has_b = True, b = ''f''\<rparr>,
      \<lparr>a = ''m'', has_b = True, b = ''k''\<rparr>]) ''g'' \<and>
   \<not> key_in_absent_set (foldl add_absent_range
     \<lparr>snapshot_tid = 10, resolved = False, read_set = Map.empty,
      write_set = Map.empty, absent_range_set = []\<rparr>
     [\<lparr>a = ''b'', has_b = True, b = ''d''\<rparr>, \<lparr>a = ''x'', has_b = False, b = ''''\<rparr>,
      \<lparr>a = ''f'', has_b = True, b = ''h''\<rparr>, \<lparr>a = ''c'', has_b = True, b = ''f''\<rparr>,
      \<lparr>a = ''m'', has_b = True, b = ''k''\<rparr>]) ''l''"
proof -
  let ?T = "\<lparr>snapshot_tid = 10, resolved = False, read_set = Map.empty,
      write_set = Map.empty, absent_range_set = []\<rparr> :: transaction"
  let ?R = "[\<lparr>a = ''b'', has_b = True, b = ''d''\<rparr>, \<lparr>a = ''x'', has_b = False, b = ''''\<rparr>,
      \<lparr>a = ''f'', has_b = True, b = ''h''\<rparr>, \<lparr>a = ''c'', has_b = True, b = ''f''\<rparr>,
      \<lparr>a = ''m'', has_b = True, b = ''k''\<rparr>]"
  have e: "absent_range_set ?T = []" by simp
  have r: "absent_range_set (foldl add_absent_range ?T ?R)
     = [\<lparr>a = ''b'', has_b = True, b = ''h''\<rparr>, \<lparr>a = ''x'', has_b = False, b = ''''\<rparr>]"
    by (simp add: add_absent_range_def is_empty_range_def range_before_def contains_def
          range_hull_def)
  have g: "\<exists>r \<in> set ?R. key_in_range r ''g''" by (simp add: key_in_range_def)
  have l: "\<not> (\<exists>r \<in> set ?R. key_in_range r ''l'')" by (simp add: key_in_range_def)
  from absent_range_set_spec [OF e, of ?R]
  have k: "\<forall>k. key_in_absent_set (foldl add_absent_range ?T ?R) k \<longleftrightarrow>
        (\<exists>r \<in> set ?R. key_in_range r k)" by blast
  from k g have kg: "key_in_absent_set (foldl add_absent_range ?T ?R) ''g''" by blast
  from k l have kl: "\<not> key_in_absent_set (foldl add_absent_range ?T ?R) ''l''" by blast
  show ?thesis by (rule conjI [OF e conjI [OF r conjI [OF kg kl]]])
qed

section \<open>Local search\<close>

text \<open>
  Claim C8. \<open>local_search\<close> returns the \<open>write_set\<close> entry of a key when there is one,
  whether or not \<open>read_set\<close> has an entry for the key too; it returns the value of the
  \<open>read_set\<close> entry when only that exists; and it returns not-found exactly when
  neither set has an entry for the key.
\<close>

theorem local_search_spec:
  "(write_set txn k = Some w \<longrightarrow> local_search txn k v = (True, w)) \<and>
   (write_set txn k = None \<and> read_set txn k = Some rr \<longrightarrow>
      local_search txn k v = (True, r_rr rr)) \<and>
   (fst (local_search txn k v) = False \<longleftrightarrow> write_set txn k = None \<and> read_set txn k = None) \<and>
   (write_set txn k = None \<and> read_set txn k = None \<longrightarrow> local_search txn k v = (False, v))"
  by (auto simp: local_search_def local_search_str_def split: option.splits)

text \<open>The theorem at a transaction that read \<open>k1\<close> and \<open>k2\<close> and wrote \<open>k1\<close>.\<close>

theorem local_search_spec_witness:
  "local_search \<lparr>snapshot_tid = 10, resolved = False,
      read_set = [''k1'' \<mapsto> \<lparr>t_rr = 4, r_rr = 100, ln_rr = 4096\<rparr>,
                  ''k2'' \<mapsto> \<lparr>t_rr = 6, r_rr = 200, ln_rr = 8192\<rparr>],
      write_set = [''k1'' \<mapsto> 300], absent_range_set = []\<rparr> ''k1'' 0 = (True, 300) \<and>
   local_search \<lparr>snapshot_tid = 10, resolved = False,
      read_set = [''k1'' \<mapsto> \<lparr>t_rr = 4, r_rr = 100, ln_rr = 4096\<rparr>,
                  ''k2'' \<mapsto> \<lparr>t_rr = 6, r_rr = 200, ln_rr = 8192\<rparr>],
      write_set = [''k1'' \<mapsto> 300], absent_range_set = []\<rparr> ''k2'' 0 = (True, 200) \<and>
   local_search \<lparr>snapshot_tid = 10, resolved = False,
      read_set = [''k1'' \<mapsto> \<lparr>t_rr = 4, r_rr = 100, ln_rr = 4096\<rparr>,
                  ''k2'' \<mapsto> \<lparr>t_rr = 6, r_rr = 200, ln_rr = 8192\<rparr>],
      write_set = [''k1'' \<mapsto> 300], absent_range_set = []\<rparr> ''k3'' 0 = (False, 0)"
proof -
  let ?T = "\<lparr>snapshot_tid = 10, resolved = False,
      read_set = [''k1'' \<mapsto> \<lparr>t_rr = 4, r_rr = 100, ln_rr = 4096\<rparr>,
                  ''k2'' \<mapsto> \<lparr>t_rr = 6, r_rr = 200, ln_rr = 8192\<rparr>],
      write_set = [''k1'' \<mapsto> 300], absent_range_set = []\<rparr> :: transaction"
  have "local_search ?T ''k1'' 0 = (True, 300)"
    using local_search_spec [of ?T "''k1''" 300 0] by simp
  moreover have "local_search ?T ''k2'' 0 = (True, 200)"
    using local_search_spec [of ?T "''k2''" _ 0 "\<lparr>t_rr = 6, r_rr = 200, ln_rr = 8192\<rparr>"] by simp
  moreover have "local_search ?T ''k3'' 0 = (False, 0)"
    using local_search_spec [of ?T "''k3''" _ 0] by simp
  ultimately show ?thesis by (simp only:)
qed

end
